theory Spec2Isabelle
  imports Main
begin

section \<open>Python text\<close>

text \<open>
  A Python \<open>str\<close> is a sequence of Unicode code points; \<open>len\<close>, slicing and
  \<open>startswith\<close> count code points. The model therefore takes a text to be the list of
  its code points. \<open>py\<close> turns an ASCII literal into such a text.
\<close>

type_synonym pystr = "nat list"

definition py :: "string \<Rightarrow> pystr" where
  "py s = map of_char s"

text \<open>
  \<open>str.isspace\<close> for one code point: the characters \<open>str.strip()\<close> removes when it
  is called without an argument.
\<close>

definition isspace :: "nat \<Rightarrow> bool" where
  "isspace c =
     ((9 \<le> c \<and> c \<le> 13) \<or> (28 \<le> c \<and> c \<le> 32) \<or> c = 133 \<or> c = 160 \<or> c = 5760 \<or>
      (8192 \<le> c \<and> c \<le> 8202) \<or> c = 8232 \<or> c = 8233 \<or> c = 8239 \<or> c = 8287 \<or>
      c = 12288)"

definition strip :: "pystr \<Rightarrow> pystr" where
  "strip s = rev (dropWhile isspace (rev (dropWhile isspace s)))"

definition startswith :: "pystr \<Rightarrow> pystr \<Rightarrow> bool" where
  "startswith s p = (take (length p) s = p)"

text \<open>
  The slice \<open>s[a:b]\<close>: a negative bound counts from the end, and both bounds are clamped
  to the text; an empty range gives the empty text, never an error.
\<close>

definition py_slice :: "'a list \<Rightarrow> int \<Rightarrow> int \<Rightarrow> 'a list" where
  "py_slice s a b =
     (let n = int (length s);
          start = (if a < 0 then max (a + n) 0 else min a n);
          stop = (if b < 0 then max (b + n) 0 else min b n)
      in take (nat (stop - start)) (drop (nat start) s))"

section \<open>Fence stripping\<close>

text \<open>
  Lines 82 to 85 of \<open>extract_invoice_data\<close>, applied to the stripped response body:
  \<^verbatim>\<open>
  if content.startswith("```json"):
      content = content[7:-3]
  elif content.startswith("```"):
      content = content[3:-3]
  \<close>
\<close>

definition strip_fence :: "pystr \<Rightarrow> pystr" where
  "strip_fence content =
     (if startswith content (py ''```json'') then py_slice content 7 (- 3)
      else if startswith content (py ''```'') then py_slice content 3 (- 3)
      else content)"

section \<open>Python values\<close>

text \<open>
  The values \<open>json.loads\<close> returns: \<open>None\<close>, booleans, unbounded integers, floats,
  texts, lists, and dictionaries with text keys. A dictionary keeps its keys in insertion
  order, so it is an association list; \<open>dict_set\<close> is the item assignment
  \<open>d[k] = v\<close>, which overwrites the value of a key already present in place.

  A float is kept as the decimal it was read from, \<open>FDec neg m e\<close> for the double
  nearest to \<open>m * 10 ^ e\<close> with its sign, or as one of the three constants. Interpreter
  limits (recursion depth, the length of integer literals, memory) are not modelled.
\<close>

datatype pyfloat = FNaN | FInf bool | FDec bool nat int

datatype pyval =
    PNone
  | PBool bool
  | PInt int
  | PFloat pyfloat
  | PStr pystr
  | PList "pyval list"
  | PDict "(pystr \<times> pyval) list"

fun dict_get :: "(pystr \<times> 'v) list \<Rightarrow> pystr \<Rightarrow> 'v option" where
  "dict_get [] k = None"
| "dict_get ((k', v) # kvs) k = (if k' = k then Some v else dict_get kvs k)"

fun dict_set :: "(pystr \<times> 'v) list \<Rightarrow> pystr \<Rightarrow> 'v \<Rightarrow> (pystr \<times> 'v) list" where
  "dict_set [] k v = [(k, v)]"
| "dict_set ((k', v') # kvs) k v =
     (if k' = k then (k, v) # kvs else (k', v') # dict_set kvs k v)"

text \<open>
  Truth value testing, as \<open>if extracted_data:\<close> does it. A float read from a decimal
  literal is zero when the decimal is zero or rounds to zero, which it does from
  \<open>2 ^ - 1075\<close> downwards.
\<close>

definition float_is_zero :: "pyfloat \<Rightarrow> bool" where
  "float_is_zero f =
     (case f of
        FNaN \<Rightarrow> False
      | FInf neg \<Rightarrow> False
      | FDec neg m e \<Rightarrow> m = 0 \<or> (e < 0 \<and> m * 2 ^ 1075 \<le> 10 ^ nat (- e)))"

fun truthy :: "pyval \<Rightarrow> bool" where
  "truthy PNone = False"
| "truthy (PBool b) = b"
| "truthy (PInt i) = (i \<noteq> 0)"
| "truthy (PFloat f) = (\<not> float_is_zero f)"
| "truthy (PStr s) = (s \<noteq> [])"
| "truthy (PList vs) = (vs \<noteq> [])"
| "truthy (PDict kvs) = (kvs \<noteq> [])"

text \<open>
  The exceptions the program can meet. \<open>StreamlitSecretNotFoundError\<close> is what reading
  \<open>st.secrets\<close> raises when there is no secrets file; \<open>ExternalError\<close> stands for
  whatever else an external library (the image library, the completion client) raises,
  with its message.
\<close>

datatype py_exn =
    JSONDecodeError
  | AttributeError
  | TypeError
  | ValueError
  | IndexError
  | KeyError
  | StreamlitSecretNotFoundError
  | ExternalError pystr

text \<open>\<open>len(x)\<close>: defined on texts, lists and dictionaries, a \<open>TypeError\<close> elsewhere.\<close>

fun py_len :: "pyval \<Rightarrow> py_exn + nat" where
  "py_len (PStr s) = Inr (length s)"
| "py_len (PList vs) = Inr (length vs)"
| "py_len (PDict kvs) = Inr (length kvs)"
| "py_len _ = Inl TypeError"

section \<open>json.loads\<close>

text \<open>
  The decoder of Python's \<open>json\<close> module, as \<open>json.loads(content)\<close> runs it on a text:
  white space is the four characters space, tab, line feed and carriage return; a value
  is scanned from the first character that is not white space; what follows the value
  must be white space only. The scanner works on the text that remains and returns the
  value with the rest of the text.
\<close>

definition is_json_ws :: "nat \<Rightarrow> bool" where
  "is_json_ws c = (c = 32 \<or> c = 9 \<or> c = 10 \<or> c = 13)"

definition skip_ws :: "pystr \<Rightarrow> pystr" where
  "skip_ws s = dropWhile is_json_ws s"

definition is_digit :: "nat \<Rightarrow> bool" where
  "is_digit c = (48 \<le> c \<and> c \<le> 57)"

definition hex_digit :: "nat \<Rightarrow> nat option" where
  "hex_digit c =
     (if 48 \<le> c \<and> c \<le> 57 then Some (c - 48)
      else if 97 \<le> c \<and> c \<le> 102 then Some (c - 87)
      else if 65 \<le> c \<and> c \<le> 70 then Some (c - 55)
      else None)"

fun hex4 :: "pystr \<Rightarrow> nat option" where
  "hex4 [a, b, c, d] =
     (case (hex_digit a, hex_digit b, hex_digit c, hex_digit d) of
        (Some w, Some x, Some y, Some z) \<Rightarrow> Some (((w * 16 + x) * 16 + y) * 16 + z)
      | _ \<Rightarrow> None)"
| "hex4 _ = None"

definition unescape :: "nat \<Rightarrow> nat option" where
  "unescape e =
     (if e = 34 \<or> e = 92 \<or> e = 47 then Some e
      else if e = 98 then Some 8
      else if e = 102 then Some 12
      else if e = 110 then Some 10
      else if e = 114 then Some 13
      else if e = 116 then Some 9
      else None)"

definition is_high_surrogate :: "nat \<Rightarrow> bool" where
  "is_high_surrogate u = (55296 \<le> u \<and> u \<le> 56319)"

definition is_low_surrogate :: "nat \<Rightarrow> bool" where
  "is_low_surrogate u = (56320 \<le> u \<and> u \<le> 57343)"

definition join_surrogates :: "nat \<Rightarrow> nat \<Rightarrow> nat" where
  "join_surrogates hi lo = 65536 + ((hi - 55296) * 1024 + (lo - 56320))"

definition emit :: "nat \<Rightarrow> (pystr \<times> pystr) option \<Rightarrow> (pystr \<times> pystr) option" where
  "emit c res = (case res of None \<Rightarrow> None | Some (str, rest) \<Rightarrow> Some (c # str, rest))"

text \<open>
  A string, from the character after its opening quote: up to the closing quote, with
  the backslash escapes decoded, a four-digit hexadecimal escape of a high surrogate
  joined with a following one of a low surrogate, and a raw control character refused.
\<close>

function scanstring :: "pystr \<Rightarrow> (pystr \<times> pystr) option" where
  "scanstring [] = None"
| "scanstring (c # r) =
     (if c = 34 then Some ([], r)
      else if c = 92 then
        (case r of
           [] \<Rightarrow> None
         | e # r1 \<Rightarrow>
             if e = 117 then
               (case hex4 (take 4 r1) of
                  None \<Rightarrow> None
                | Some u \<Rightarrow>
                    if is_high_surrogate u \<and> take 2 (drop 4 r1) = [92, 117] then
                      (case hex4 (take 4 (drop 6 r1)) of
                         None \<Rightarrow> None
                       | Some u2 \<Rightarrow>
                           if is_low_surrogate u2
                           then emit (join_surrogates u u2) (scanstring (drop 10 r1))
                           else emit u (scanstring (drop 4 r1)))
                    else emit u (scanstring (drop 4 r1)))
             else
               (case unescape e of
                  None \<Rightarrow> None
                | Some ch \<Rightarrow> emit ch (scanstring r1)))
      else if c \<le> 31 then None
      else emit c (scanstring r))"
  by pat_completeness auto
termination
  by (relation "measure length") auto


lemma scanstring_shorter: "scanstring s = Some (str, r) \<Longrightarrow> length r < length s"
proof (induction s arbitrary: str r rule: scanstring.induct)
  case 1
  then show ?case by simp
next
  case (2 c r0)
  show ?case
  proof (cases "c = 34")
    case True
    with "2.prems" show ?thesis by auto
  next
    case False
    note c34 = this
    show ?thesis
    proof (cases "c = 92")
      case False
      with c34 "2.prems" "2.IH"(5) show ?thesis
        by (fastforce simp: emit_def split: if_splits option.splits)
    next
      case True
      show ?thesis
      proof (cases r0)
        case Nil
        with True c34 "2.prems" show ?thesis by simp
      next
        case (Cons e r1)
        show ?thesis
        proof (cases "e = 117")
          case False
          with True c34 Cons "2.prems" "2.IH"(4) show ?thesis
            by (fastforce simp: emit_def split: if_splits option.splits)
        next
          case e: True
          from True c34 Cons e "2.prems" obtain u where u: "hex4 (take 4 r1) = Some u"
            by (auto split: option.splits)
          show ?thesis
          proof (cases "is_high_surrogate u \<and> take 2 (drop 4 r1) = [92, 117]")
            case False
            with True c34 Cons e u "2.prems" "2.IH"(3) [OF c34 True Cons e u] show ?thesis
              by (fastforce simp: emit_def split: if_splits option.splits)
          next
            case hs: True
            from True c34 Cons e u hs "2.prems" obtain u2 where u2: "hex4 (take 4 (drop 6 r1)) = Some u2"
              by (auto split: option.splits)
            show ?thesis
            proof (cases "is_low_surrogate u2")
              case True
              with \<open>c = 92\<close> c34 Cons e u hs u2 "2.prems" "2.IH"(1) [OF c34 \<open>c = 92\<close> Cons e u hs u2] show ?thesis
                by (fastforce simp: emit_def split: if_splits option.splits)
            next
              case False
              with \<open>c = 92\<close> c34 Cons e u hs u2 "2.prems" "2.IH"(2) [OF c34 \<open>c = 92\<close> Cons e u hs u2] show ?thesis
                by (fastforce simp: emit_def split: if_splits option.splits)
            qed
          qed
        qed
      qed
    qed
  qed
qed

text \<open>
  A number: an optional minus sign, an integer part without a leading zero (or a single
  zero), then optionally a fraction and an exponent. With neither it is an \<open>int\<close>, else
  a float.
\<close>

definition digits_value :: "pystr \<Rightarrow> nat" where
  "digits_value ds = foldl (\<lambda>a c. 10 * a + (c - 48)) 0 ds"

definition scan_exponent :: "pystr \<Rightarrow> (bool \<times> pystr) option \<times> pystr" where
  "scan_exponent s =
     (case s of
        [] \<Rightarrow> (None, s)
      | e # r \<Rightarrow>
          if (e = 101 \<or> e = 69) \<and> r \<noteq> [] then
            (let (neg, r1) =
                   (case r of
                      [] \<Rightarrow> (False, r)
                    | c # r' \<Rightarrow>
                        if (c = 45 \<or> c = 43) \<and> r' \<noteq> [] then (c = 45, r') else (False, r))
             in if takeWhile is_digit r1 \<noteq> []
                then (Some (neg, takeWhile is_digit r1), dropWhile is_digit r1)
                else (None, s))
          else (None, s))"

definition scan_fraction :: "pystr \<Rightarrow> pystr \<times> pystr" where
  "scan_fraction s =
     (case s of
        d # f # r \<Rightarrow>
          if d = 46 \<and> is_digit f then (f # takeWhile is_digit r, dropWhile is_digit r)
          else ([], s)
      | _ \<Rightarrow> ([], s))"

definition scan_integer :: "pystr \<Rightarrow> (pystr \<times> pystr) option" where
  "scan_integer s =
     (case s of
        [] \<Rightarrow> None
      | c # r \<Rightarrow>
          if 49 \<le> c \<and> c \<le> 57 then Some (c # takeWhile is_digit r, dropWhile is_digit r)
          else if c = 48 then Some ([c], r)
          else None)"

definition scan_sign :: "pystr \<Rightarrow> bool \<times> pystr" where
  "scan_sign s = (case s of [] \<Rightarrow> (False, s) | c # r \<Rightarrow> if c = 45 then (True, r) else (False, s))"

definition number_value :: "bool \<Rightarrow> pystr \<Rightarrow> pystr \<Rightarrow> (bool \<times> pystr) option \<Rightarrow> pyval" where
  "number_value neg ip fp ep =
     (if fp = [] \<and> ep = None
      then PInt (if neg then - int (digits_value ip) else int (digits_value ip))
      else PFloat (FDec neg (digits_value (ip @ fp))
             ((case ep of
                 None \<Rightarrow> 0
               | Some (eneg, ds) \<Rightarrow> if eneg then - int (digits_value ds) else int (digits_value ds))
              - int (length fp))))"

definition match_number :: "pystr \<Rightarrow> (pyval \<times> pystr) option" where
  "match_number s =
     (case scan_sign s of
        (neg, s1) \<Rightarrow>
          (case scan_integer s1 of
             None \<Rightarrow> None
           | Some (ip, r1) \<Rightarrow>
               (case scan_fraction r1 of
                  (fp, r2) \<Rightarrow>
                    (case scan_exponent r2 of
                       (ep, r3) \<Rightarrow> Some (number_value neg ip fp ep, r3)))))"

lemma length_skip_ws: "length (skip_ws s) \<le> length s"
  by (simp add: skip_ws_def length_dropWhile_le)

lemma skip_ws_Cons_shorter: "skip_ws r = d # r' \<Longrightarrow> length r' < length r"
  using length_skip_ws [of r] by simp

text \<open>
  \<open>scan_once\<close> reads one value; \<open>parse_array\<close> and \<open>parse_object\<close> are the loops over
  the elements of a non-empty array and the members of a non-empty object, entered at the
  first element and at the first key. The tests \<open>length r < length s\<close> on the rest
  returned by \<open>scan_once\<close> always hold (lemma \<open>scan_once_shorter\<close> below); they are
  there for the termination proof.
\<close>

function scan_once :: "pystr \<Rightarrow> (pyval \<times> pystr) option"
  and parse_array :: "pystr \<Rightarrow> pyval list \<Rightarrow> (pyval \<times> pystr) option"
  and parse_object :: "pystr \<Rightarrow> (pystr \<times> pyval) list \<Rightarrow> (pyval \<times> pystr) option"
where
  "scan_once [] = None"
| "scan_once (c # r) =
     (if c = 34 then
        (case scanstring r of None \<Rightarrow> None | Some (str, r') \<Rightarrow> Some (PStr str, r'))
      else if c = 123 then
        (case skip_ws r of
           [] \<Rightarrow> None
         | d # r' \<Rightarrow> if d = 125 then Some (PDict [], r') else parse_object (d # r') [])
      else if c = 91 then
        (case skip_ws r of
           [] \<Rightarrow> None
         | d # r' \<Rightarrow> if d = 93 then Some (PList [], r') else parse_array (d # r') [])
      else if c = 110 \<and> take 3 r = py ''ull'' then Some (PNone, drop 3 r)
      else if c = 116 \<and> take 3 r = py ''rue'' then Some (PBool True, drop 3 r)
      else if c = 102 \<and> take 4 r = py ''alse'' then Some (PBool False, drop 4 r)
      else if c = 78 \<and> take 2 r = py ''aN'' then Some (PFloat FNaN, drop 2 r)
      else if c = 73 \<and> take 7 r = py ''nfinity'' then Some (PFloat (FInf False), drop 7 r)
      else if c = 45 \<and> take 8 r = py ''Infinity'' then Some (PFloat (FInf True), drop 8 r)
      else match_number (c # r))"
| "parse_array s acc =
     (case scan_once s of
        None \<Rightarrow> None
      | Some (v, r) \<Rightarrow>
          if length r < length s then
            (case skip_ws r of
               [] \<Rightarrow> None
             | d # r' \<Rightarrow>
                 if d = 93 then Some (PList (acc @ [v]), r')
                 else if d = 44 then parse_array (skip_ws r') (acc @ [v])
                 else None)
          else None)"
| "parse_object s acc =
     (case s of
        [] \<Rightarrow> None
      | q # r0 \<Rightarrow>
          if q \<noteq> 34 then None
          else
            (case scanstring r0 of
               None \<Rightarrow> None
             | Some (key, r1) \<Rightarrow>
                 (case skip_ws r1 of
                    [] \<Rightarrow> None
                  | col # r2 \<Rightarrow>
                      if col \<noteq> 58 then None
                      else
                        (case scan_once (skip_ws r2) of
                           None \<Rightarrow> None
                         | Some (v, r3) \<Rightarrow>
                             if length r3 < length s then
                               (case skip_ws r3 of
                                  [] \<Rightarrow> None
                                | d # r4 \<Rightarrow>
                                    if d = 125 then Some (PDict (dict_set acc key v), r4)
                                    else if d = 44
                                    then parse_object (skip_ws r4) (dict_set acc key v)
                                    else None)
                             else None))))"
  by pat_completeness auto

termination
proof (relation "measure (\<lambda>x. case x of
          Inl s \<Rightarrow> 2 * length s
        | Inr (Inl (s, acc)) \<Rightarrow> 2 * length s + 1
        | Inr (Inr (s, acc)) \<Rightarrow> 2 * length s + 1)", goal_cases)
  case 1
  then show ?case by simp
next
  case (2 c r x21 x22)
  then show ?case using skip_ws_Cons_shorter [of r x21 x22] by simp
next
  case (3 c r x21 x22)
  then show ?case using skip_ws_Cons_shorter [of r x21 x22] by simp
next
  case (4 s acc)
  then show ?case by simp
next
  case (5 s acc x2 x y x21 x22)
  then show ?case using skip_ws_Cons_shorter [of y x21 x22] length_skip_ws [of x22] by simp
next
  case (6 s acc x21 x22 x2 x y x21a x22a)
  then show ?case
    using scanstring_shorter [of x22 x y] skip_ws_Cons_shorter [of y x21a x22a]
      length_skip_ws [of x22a]
    by simp
next
  case (7 s acc x21 x22 x2 x y x21a x22a x2a xa ya x21b x22b)
  then show ?case
    using skip_ws_Cons_shorter [of ya x21b x22b] length_skip_ws [of x22b] by simp
qed

definition json_loads :: "pystr \<Rightarrow> py_exn + pyval" where
  "json_loads s =
     (if startswith s [65279] then Inl JSONDecodeError
      else
        (case scan_once (skip_ws s) of
           None \<Rightarrow> Inl JSONDecodeError
         | Some (v, r) \<Rightarrow> if skip_ws r = [] then Inr v else Inl JSONDecodeError))"

section \<open>json.dumps\<close>

text \<open>
  The encoder of Python's \<open>json\<close> module as \<open>json.dumps(extracted_data, indent=2)\<close>
  runs it: every character outside printable ASCII is escaped, an empty list or
  dictionary is written without a line break, and each element of a non-empty one
  starts a new line indented by two spaces per level. The decimal text of a finite float
  is the shortest one that reads back as the same double; it is not computed here but
  taken from the parameter \<open>fr\<close>.
\<close>

fun nat_digits :: "nat \<Rightarrow> pystr" where
  "nat_digits n = (if n < 10 then [48 + n] else nat_digits (n div 10) @ [48 + n mod 10])"

definition int_repr :: "int \<Rightarrow> pystr" where
  "int_repr i = (if i < 0 then 45 # nat_digits (nat (- i)) else nat_digits (nat i))"

definition hex_char :: "nat \<Rightarrow> nat" where
  "hex_char d = (if d < 10 then 48 + d else 87 + d)"

definition u_escape :: "nat \<Rightarrow> pystr" where
  "u_escape u =
     [92, 117, hex_char (u div 4096 mod 16), hex_char (u div 256 mod 16),
      hex_char (u div 16 mod 16), hex_char (u mod 16)]"

definition escape_char :: "nat \<Rightarrow> pystr" where
  "escape_char c =
     (if c = 34 then [92, 34]
      else if c = 92 then [92, 92]
      else if c = 10 then [92, 110]
      else if c = 13 then [92, 114]
      else if c = 9 then [92, 116]
      else if c = 12 then [92, 102]
      else if c = 8 then [92, 98]
      else if 32 \<le> c \<and> c \<le> 126 then [c]
      else if c < 65536 then u_escape c
      else u_escape (55296 + (c - 65536) div 1024) @ u_escape (56320 + c mod 1024))"

definition encode_string :: "pystr \<Rightarrow> pystr" where
  "encode_string s = 34 # concat (map escape_char s) @ [34]"

definition newline_indent :: "nat \<Rightarrow> pystr" where
  "newline_indent level = 10 # replicate (2 * level) 32"

fun join :: "'a list \<Rightarrow> 'a list list \<Rightarrow> 'a list" where
  "join sep [] = []"
| "join sep [x] = x"
| "join sep (x # y # zs) = x @ sep @ join sep (y # zs)"

definition floatstr :: "(pyfloat \<Rightarrow> pystr) \<Rightarrow> pyfloat \<Rightarrow> pystr" where
  "floatstr fr f =
     (case f of
        FNaN \<Rightarrow> py ''NaN''
      | FInf neg \<Rightarrow> if neg then py ''-Infinity'' else py ''Infinity''
      | FDec neg m e \<Rightarrow> fr f)"

fun iterencode :: "(pyfloat \<Rightarrow> pystr) \<Rightarrow> nat \<Rightarrow> pyval \<Rightarrow> pystr" where
  "iterencode fr level PNone = py ''null''"
| "iterencode fr level (PBool b) = (if b then py ''true'' else py ''false'')"
| "iterencode fr level (PInt i) = int_repr i"
| "iterencode fr level (PFloat f) = floatstr fr f"
| "iterencode fr level (PStr s) = encode_string s"
| "iterencode fr level (PList vs) =
     (if vs = [] then py ''[]''
      else [91] @ newline_indent (level + 1) @
           join (44 # newline_indent (level + 1)) (map (iterencode fr (level + 1)) vs) @
           newline_indent level @ [93])"
| "iterencode fr level (PDict kvs) =
     (if kvs = [] then py ''{}''
      else [123] @ newline_indent (level + 1) @
           join (44 # newline_indent (level + 1))
             (map (\<lambda>kv. encode_string (fst kv) @ py '': '' @ iterencode fr (level + 1) (snd kv)) kvs) @
           newline_indent level @ [125])"

definition json_dumps :: "(pyfloat \<Rightarrow> pystr) \<Rightarrow> pyval \<Rightarrow> pystr" where
  "json_dumps fr v = iterencode fr 0 v"

section \<open>Line items as a table\<close>

text \<open>
  Modelled from the spec: \<open>pandas\<close> (\<open>pd.DataFrame\<close>, \<open>DataFrame.to_csv\<close>) is not
  among the sources. The spec has the line items as a sequence of mappings from column
  names to text, and the CSV export as the text with "column headers taken from whatever
  keys are present in the first/each item": a header row, then one row per item, the
  fields separated by commas. The model covers this shape only: a non-empty list of
  dictionaries whose values are all texts makes a frame, with the keys in the order they
  first appear as columns and a missing cell written empty; \<open>DataFrame\<close> is \<open>None\<close> on
  any other value. A field is quoted when it holds a comma, a quote or a line break.
\<close>

type_synonym frame = "pystr list \<times> pystr option list list"

fun text_cells :: "(pystr \<times> pyval) list \<Rightarrow> (pystr \<times> pystr) list option" where
  "text_cells [] = Some []"
| "text_cells ((k, PStr s) # kvs) = map_option ((#) (k, s)) (text_cells kvs)"
| "text_cells ((k, v) # kvs) = None"

fun records_of :: "pyval list \<Rightarrow> (pystr \<times> pystr) list list option" where
  "records_of [] = Some []"
| "records_of (PDict kvs # vs) =
     (case text_cells kvs of
        None \<Rightarrow> None
      | Some row \<Rightarrow> map_option ((#) row) (records_of vs))"
| "records_of (v # vs) = None"

definition column_union :: "(pystr \<times> pystr) list list \<Rightarrow> pystr list" where
  "column_union rows =
     foldl (\<lambda>cols row. cols @ filter (\<lambda>k. k \<notin> set cols) (map fst row)) [] rows"

definition DataFrame :: "pyval \<Rightarrow> frame option" where
  "DataFrame v =
     (case v of
        PList items \<Rightarrow>
          (case records_of items of
             None \<Rightarrow> None
           | Some rows \<Rightarrow>
               if column_union rows = [] then None
               else Some (column_union rows, map (\<lambda>row. map (dict_get row) (column_union rows)) rows))
      | _ \<Rightarrow> None)"

definition csv_field :: "pystr \<Rightarrow> pystr \<Rightarrow> pystr" where
  "csv_field sep s =
     (if list_ex (\<lambda>c. c = 44 \<or> c = 34 \<or> c = 13 \<or> c = 10 \<or> c \<in> set sep) s
      then 34 # concat (map (\<lambda>c. if c = 34 then [34, 34] else [c]) s) @ [34]
      else s)"

definition csv_row :: "pystr \<Rightarrow> pystr list \<Rightarrow> pystr" where
  "csv_row sep cells =
     (if join [44] (map (csv_field sep) cells) = [] then [34, 34]
      else join [44] (map (csv_field sep) cells)) @ sep"

definition to_csv :: "pystr \<Rightarrow> frame \<Rightarrow> pystr" where
  "to_csv sep df =
     csv_row sep (fst df) @
     concat (map (\<lambda>row. csv_row sep (map (\<lambda>cell. case cell of None \<Rightarrow> [] | Some s \<Rightarrow> s) row))
               (snd df))"

section \<open>The application\<close>

text \<open>
  What a run of the script does is recorded as a trace of events: each Streamlit call
  that returned, in the order the calls are made, and each request sent to the completion
  service. Streamlit and \<open>pandas\<close> are outside the sources. The calls that are given a
  text only (\<open>st.title\<close>, \<open>st.subheader\<close>, \<open>st.write\<close> of an f-string and the like)
  return normally; the calls that raise on some of the values this program gives them
  are modelled with that error: \<open>st.metric\<close> on a value, reading and assigning
  \<open>st.secrets\<close>, and \<open>pd.DataFrame\<close>. A call that raises leaves no event. An f-string
  is recorded by its parts: the literal text, and for each \<open>{...}\<close> the value (or
  exception) that is formatted.
\<close>

datatype part = Lit pystr | Fmt pyval | FmtExn py_exn

datatype pyarg = Value pyval | FString "part list"

record request =
  req_api_key :: pystr
  req_model :: pystr
  req_prompt :: pystr
  req_image_url :: pystr
  req_max_tokens :: nat

datatype event =
    PageConfig
  | Title pystr
  | Markdown pystr
  | Header pystr
  | Subheader pystr
  | TextInput pystr
  | FileUploader pystr
  | Columns nat
  | Metric pystr pyarg
  | Write "part list"
  | Dataframe pyval "frame option"
  | ImageShown pystr
  | Success pystr
  | Warning pystr
  | Error "part list"
  | Button pystr
  | Spinner pystr
  | ApiRequest request
  | DownloadButton pystr "pystr option" pystr pystr
  | Expander pystr
  | Json pyval

text \<open>
  The world outside the script: opening an uploaded file as an image
  (\<open>Image.open\<close>), writing an image as PNG bytes (\<open>image.save(buffered, format="PNG")\<close>),
  the completion service (\<open>client.chat.completions.create\<close>, answering with the message
  contents of its choices, each a text or \<open>None\<close>), the exception \<open>pd.DataFrame\<close>
  raises on a value, if it raises, the decimal text of a float and the platform's line
  separator. Each of the calls can raise.
\<close>

record ('f, 'i) world =
  image_open :: "'f \<Rightarrow> py_exn + 'i"
  save_png :: "'i \<Rightarrow> py_exn + nat list"
  chat_create :: "request \<Rightarrow> py_exn + pystr option list"
  frame_error :: "pyval \<Rightarrow> py_exn option"
  float_repr :: "pyfloat \<Rightarrow> pystr"
  linesep :: pystr

text \<open>
  The state a run works on: \<open>st.secrets\<close>, the client \<open>st.cache_resource\<close> keeps
  (a client is identified with the key it was made with), and the trace so far. The
  secrets are the entries of the secrets file, each a key with its text, or \<open>None\<close>
  when there is no secrets file.
\<close>

record app =
  secrets :: "(pystr \<times> pystr) list option"
  client_cache :: "pystr option"
  trace :: "event list"

text \<open>
  What the user has done when the script runs: the text in the key field, the uploaded
  file if there is one, and whether this run was started by the extract button.
\<close>

record 'f inputs =
  api_key_input :: pystr
  uploaded_file :: "'f option"
  extract_clicked :: bool

definition say :: "event \<Rightarrow> app \<Rightarrow> app" where
  "say e st = st\<lparr>trace := trace st @ [e]\<rparr>"

definition OPENAI_API_KEY :: pystr where
  "OPENAI_API_KEY = py ''OPENAI_API_KEY''"

text \<open>
  \<open>st.secrets\<close> is a read-only mapping over the secrets file. Reading a key raises
  \<open>StreamlitSecretNotFoundError\<close> when there is no file; with a file,
  \<open>st.secrets[key]\<close> raises \<open>KeyError\<close> on a missing key, where \<open>st.secrets.get(key)\<close>
  is \<open>None\<close>. The assignment \<open>st.secrets[key] = value\<close> raises \<open>TypeError\<close>, with or
  without a file: the object has no item assignment.
\<close>

definition secrets_getitem :: "app \<Rightarrow> pystr \<Rightarrow> py_exn + pystr" where
  "secrets_getitem st k =
     (case secrets st of
        None \<Rightarrow> Inl StreamlitSecretNotFoundError
      | Some kvs \<Rightarrow> (case dict_get kvs k of None \<Rightarrow> Inl KeyError | Some v \<Rightarrow> Inr v))"

definition secrets_get :: "app \<Rightarrow> pystr \<Rightarrow> py_exn + pystr option" where
  "secrets_get st k =
     (case secrets st of
        None \<Rightarrow> Inl StreamlitSecretNotFoundError
      | Some kvs \<Rightarrow> Inr (dict_get kvs k))"

definition secrets_setitem :: "app \<Rightarrow> pystr \<Rightarrow> pystr \<Rightarrow> py_exn" where
  "secrets_setitem st k v = TypeError"

text \<open>Lines 13 to 15: the client is made once, with the key read from the secrets.\<close>

definition init_openai :: "app \<Rightarrow> (py_exn + pystr) \<times> app" where
  "init_openai st =
     (case client_cache st of
        Some key \<Rightarrow> (Inr key, st)
      | None \<Rightarrow>
          (case secrets_getitem st OPENAI_API_KEY of
             Inl e \<Rightarrow> (Inl e, st)
           | Inr key \<Rightarrow> (Inr key, st\<lparr>client_cache := Some key\<rparr>)))"

subsection \<open>encode_image\<close>

definition b64char :: "nat \<Rightarrow> nat" where
  "b64char i =
     (if i < 26 then 65 + i
      else if i < 52 then 71 + i
      else if i < 62 then i - 4
      else if i = 62 then 43
      else 47)"

fun b64encode :: "nat list \<Rightarrow> pystr" where
  "b64encode [] = []"
| "b64encode [a] = [b64char (a div 4), b64char (a mod 4 * 16), 61, 61]"
| "b64encode [a, b] =
     [b64char (a div 4), b64char (a mod 4 * 16 + b div 16), b64char (b mod 16 * 4), 61]"
| "b64encode (a # b # c # bs) =
     [b64char (a div 4), b64char (a mod 4 * 16 + b div 16),
      b64char (b mod 16 * 4 + c div 64), b64char (c mod 64)] @ b64encode bs"

definition encode_image :: "('f, 'i) world \<Rightarrow> 'i \<Rightarrow> py_exn + pystr" where
  "encode_image w img =
     (case save_png w img of
        Inl e \<Rightarrow> Inl e
      | Inr buffered \<Rightarrow> Inr (b64encode buffered))"

subsection \<open>extract_invoice_data\<close>

fun join_lines :: "pystr list \<Rightarrow> pystr" where
  "join_lines [] = []"
| "join_lines [l] = l"
| "join_lines (l # m # ls) = l @ [10] @ join_lines (m # ls)"

definition prompt :: pystr where
  \<open>prompt = join_lines
      [py '''',
       py ''        Analyze this invoice image and extract the following information in JSON format:'',
       py ''        '',
       py ''        {'',
       py ''            "invoice_number": "",'',
       py ''            "invoice_date": "",'',
       py ''            "due_date": "",'',
       py ''            "vendor_name": "",'',
       py ''            "vendor_address": "",'',
       py ''            "vendor_tax_id": "",'',
       py ''            "customer_name": "",'',
       py ''            "customer_address": "",'',
       py ''            "line_items": ['',
       py ''                {'',
       py ''                    "description": "",'',
       py ''                    "quantity": "",'',
       py ''                    "unit_price": "",'',
       py ''                    "total_price": ""'',
       py ''                }'',
       py ''            ],'',
       py ''            "subtotal": "",'',
       py ''            "tax_amount": "",'',
       py ''            "total_amount": "",'',
       py ''            "currency": ""'',
       py ''        }'',
       py ''        '',
       py ''        If any field is not found, use "N/A" as the value.'',
       py ''        Return only the JSON object, no additional text.'',
       py ''        '']\<close>

text \<open>
  Lines 80 to 87: the message content is stripped, the fence is cut off and the rest is
  given to \<open>json.loads\<close>.
\<close>

definition parse_content :: "pystr \<Rightarrow> py_exn + pyval" where
  "parse_content content = json_loads (strip_fence (strip content))"

text \<open>The handler of lines 89 to 91: the error is shown and \<open>None\<close> is returned.\<close>

definition error_extracting :: "py_exn \<Rightarrow> app \<Rightarrow> pyval \<times> app" where
  "error_extracting e st =
     (PNone, say (Error [Lit (py ''Error extracting data: ''), FmtExn e]) st)"

text \<open>The one request of lines 60 to 77, made with the client's key for the encoded image.\<close>

definition completion_request :: "pystr \<Rightarrow> pystr \<Rightarrow> request" where
  "completion_request key base64_image =
     \<lparr>req_api_key = key,
      req_model = py ''gpt-4-vision-preview'',
      req_prompt = prompt,
      req_image_url = py ''data:image/png;base64,'' @ base64_image,
      req_max_tokens = 1000\<rparr>"

definition extract_invoice_data :: "('f, 'i) world \<Rightarrow> 'i \<Rightarrow> app \<Rightarrow> pyval \<times> app" where
  "extract_invoice_data w img st =
     (case init_openai st of
        (Inl e, st1) \<Rightarrow> error_extracting e st1
      | (Inr key, st1) \<Rightarrow>
          (case encode_image w img of
             Inl e \<Rightarrow> error_extracting e st1
           | Inr base64_image \<Rightarrow>
               (let st2 = say (ApiRequest (completion_request key base64_image)) st1
                in case chat_create w (completion_request key base64_image) of
                     Inl e \<Rightarrow> error_extracting e st2
                   | Inr [] \<Rightarrow> error_extracting IndexError st2
                   | Inr (None # choices) \<Rightarrow> error_extracting AttributeError st2
                   | Inr (Some content # choices) \<Rightarrow>
                       (case parse_content content of
                          Inl e \<Rightarrow> error_extracting e st2
                        | Inr v \<Rightarrow> (v, st2)))))"

subsection \<open>display_extracted_data\<close>

text \<open>\<open>data.get(key, default)\<close> on a dictionary.\<close>

definition get_or :: "(pystr \<times> pyval) list \<Rightarrow> pystr \<Rightarrow> pyval \<Rightarrow> pyval" where
  "get_or kvs k d = (case dict_get kvs k of None \<Rightarrow> d | Some v \<Rightarrow> v)"

definition NA :: pyval where
  "NA = PStr (py ''N/A'')"

text \<open>
  What a part of the display does: the events of the calls that returned, and the
  exception that ended it, if one did. \<open>and_then\<close> runs a second part after a first
  one that ended normally.
\<close>

type_synonym outcome = "event list \<times> py_exn option"

definition and_then :: "outcome \<Rightarrow> outcome \<Rightarrow> outcome" where
  "and_then a b = (case snd a of Some e \<Rightarrow> a | None \<Rightarrow> (fst a @ fst b, snd b))"

text \<open>
  \<open>st.metric(label, value)\<close> takes as its value an \<open>int\<close>, a \<open>float\<close>, a \<open>str\<close> or
  \<open>None\<close> and raises \<open>TypeError\<close> on any other: of the values \<open>json.loads\<close> makes, on a
  list and on a dictionary (a \<open>bool\<close> is an \<open>int\<close>).
\<close>

definition metric_accepts :: "pyval \<Rightarrow> bool" where
  "metric_accepts v = (case v of PList vs \<Rightarrow> False | PDict kvs \<Rightarrow> False | _ \<Rightarrow> True)"

definition st_metric :: "pystr \<Rightarrow> pyval \<Rightarrow> outcome" where
  "st_metric label v =
     (if metric_accepts v then ([Metric label (Value v)], None) else ([], Some TypeError))"

text \<open>Lines 100 to 105.\<close>

definition invoice_information :: "(pystr \<times> pyval) list \<Rightarrow> outcome" where
  "invoice_information kvs =
     and_then (st_metric (py ''Invoice Number'') (get_or kvs (py ''invoice_number'') NA))
    (and_then (st_metric (py ''Invoice Date'') (get_or kvs (py ''invoice_date'') NA))
              (st_metric (py ''Due Date'') (get_or kvs (py ''due_date'') NA)))"

text \<open>Lines 108 to 119: texts only.\<close>

definition vendor_customer :: "(pystr \<times> pyval) list \<Rightarrow> event list" where
  "vendor_customer kvs =
     [Columns 2,
      Subheader (127970 # py '' Vendor Information''),
      Write [Lit (py ''**Name:** ''), Fmt (get_or kvs (py ''vendor_name'') NA)],
      Write [Lit (py ''**Address:** ''), Fmt (get_or kvs (py ''vendor_address'') NA)],
      Write [Lit (py ''**Tax ID:** ''), Fmt (get_or kvs (py ''vendor_tax_id'') NA)],
      Subheader (128100 # py '' Customer Information''),
      Write [Lit (py ''**Name:** ''), Fmt (get_or kvs (py ''customer_name'') NA)],
      Write [Lit (py ''**Address:** ''), Fmt (get_or kvs (py ''customer_address'') NA)]]"

definition no_line_items :: event where
  "no_line_items = Write [Lit (py ''No line items found'')]"

text \<open>
  \<open>pd.DataFrame(value)\<close>. On a value of the shape the spec describes the frame is the
  one modelled above. On any other value the constructor is the world's: it may raise
  (the real one refuses a text and a mapping of scalars with \<open>ValueError\<close>), and a frame
  it builds is not described further (\<open>None\<close>).
\<close>

definition new_frame :: "('f, 'i) world \<Rightarrow> pyval \<Rightarrow> py_exn + frame option" where
  "new_frame w v =
     (case DataFrame v of
        Some df \<Rightarrow> Inr (Some df)
      | None \<Rightarrow> (case frame_error w v of Some e \<Rightarrow> Inl e | None \<Rightarrow> Inr None))"

text \<open>
  Lines 123 to 127: \<open>len\<close> raises on line items that are a truthy number or boolean,
  and \<open>pd.DataFrame\<close> can raise on those that have a length.
\<close>

definition line_items_view :: "('f, 'i) world \<Rightarrow> (pystr \<times> pyval) list \<Rightarrow> outcome" where
  "line_items_view w kvs =
     (let line_items = get_or kvs (py ''line_items'') PNone
      in if truthy line_items then
           (case py_len line_items of
              Inl e \<Rightarrow> ([], Some e)
            | Inr n \<Rightarrow>
                if n > 0 then
                  (case new_frame w line_items of
                     Inl e \<Rightarrow> ([], Some e)
                   | Inr df \<Rightarrow> ([Dataframe line_items df], None))
                else ([no_line_items], None))
         else ([no_line_items], None))"

text \<open>Lines 130 to 138: each total is given an f-string, a text.\<close>

definition total_metric :: "(pystr \<times> pyval) list \<Rightarrow> pystr \<Rightarrow> pystr \<Rightarrow> event" where
  "total_metric kvs label key =
     Metric label
       (FString [Fmt (get_or kvs (py ''currency'') (PStr [])), Lit (py '' ''),
                 Fmt (get_or kvs key NA)])"

definition totals :: "(pystr \<times> pyval) list \<Rightarrow> event list" where
  "totals kvs =
     [Subheader (128176 # py '' Totals''),
      Columns 3,
      total_metric kvs (py ''Subtotal'') (py ''subtotal''),
      total_metric kvs (py ''Tax Amount'') (py ''tax_amount''),
      total_metric kvs (py ''Total Amount'') (py ''total_amount'')]"

text \<open>
  The events of \<open>display_extracted_data(data)\<close> and the exception it ends with, if
  any: on a value that is not a dictionary the first \<open>data.get\<close> raises
  \<open>AttributeError\<close>; on a dictionary the parts follow one another, and the first that
  raises ends the display.
\<close>

definition display_events :: "('f, 'i) world \<Rightarrow> pyval \<Rightarrow> outcome" where
  "display_events w data =
     (case data of
        PDict kvs \<Rightarrow>
          and_then ([Subheader (128203 # py '' Invoice Information''), Columns 3], None)
         (and_then (invoice_information kvs)
         (and_then (vendor_customer kvs, None)
         (and_then ([Subheader (128230 # py '' Line Items'')], None)
         (and_then (line_items_view w kvs)
                   (totals kvs, None)))))
      | _ \<Rightarrow>
          ([Subheader (128203 # py '' Invoice Information''), Columns 3], Some AttributeError))"

definition display_extracted_data ::
  "('f, 'i) world \<Rightarrow> pyval \<Rightarrow> app \<Rightarrow> py_exn option \<times> app" where
  "display_extracted_data w data st =
     (snd (display_events w data), st\<lparr>trace := trace st @ fst (display_events w data)\<rparr>)"

subsection \<open>The script\<close>

text \<open>Lines 217 to 219.\<close>

definition raw_json :: "pyval \<Rightarrow> app \<Rightarrow> app" where
  "raw_json extracted_data st =
     say (Json extracted_data) (say (Expander (128269 # py '' View Raw JSON Data'')) st)"

text \<open>
  Lines 191 to 219, reached after the data has been displayed. The data of the CSV
  download is \<open>None\<close> for a frame that is not described.
\<close>

definition download_options :: "('f, 'i) world \<Rightarrow> pyval \<Rightarrow> app \<Rightarrow> py_exn option \<times> app" where
  "download_options w extracted_data st =
     (let st1 = say (Subheader (128229 # py '' Download Options'')) st;
          st2 = say (Columns 2) st1;
          json_str = json_dumps (float_repr w) extracted_data;
          st3 = say (DownloadButton (128196 # py '' Download JSON'') (Some json_str)
                       (py ''invoice_data.json'') (py ''application/json'')) st2
      in case extracted_data of
           PDict kvs \<Rightarrow>
             (let line_items = get_or kvs (py ''line_items'') PNone
              in if truthy line_items then
                   (case new_frame w line_items of
                      Inl e \<Rightarrow> (Some e, st3)
                    | Inr df \<Rightarrow>
                        (None,
                         raw_json extracted_data
                           (say (DownloadButton (128202 # py '' Download Line Items CSV'')
                                   (map_option (to_csv (linesep w)) df)
                                   (py ''invoice_line_items.csv'') (py ''text/csv'')) st3)))
                 else (None, raw_json extracted_data st3))
         | _ \<Rightarrow> (Some AttributeError, st3))"

text \<open>Lines 182 to 219: what a click on the extract button does.\<close>

definition on_click :: "('f, 'i) world \<Rightarrow> 'i \<Rightarrow> app \<Rightarrow> py_exn option \<times> app" where
  "on_click w img st =
     (case extract_invoice_data w img (say (Spinner (py ''Analyzing invoice...'')) st) of
        (extracted_data, st1) \<Rightarrow>
          if truthy extracted_data then
            (case display_extracted_data w extracted_data
                    (say (Success (py ''Data extracted successfully!'')) st1) of
               (Some e, st2) \<Rightarrow> (Some e, st2)
             | (None, st2) \<Rightarrow> download_options w extracted_data st2)
          else (None, st1))"

text \<open>
  The truth value of what \<open>st.secrets.get("OPENAI_API_KEY")\<close> returned: the key is there
  and not empty.
\<close>

definition key_given :: "pystr option \<Rightarrow> bool" where
  "key_given k = (case k of None \<Rightarrow> False | Some key \<Rightarrow> key \<noteq> [])"

text \<open>
  The body of the \<open>try\<close> of lines 172 to 219, with the exception that leaves it, if
  any.
\<close>

definition process_upload ::
  "('f, 'i) world \<Rightarrow> 'f inputs \<Rightarrow> 'f \<Rightarrow> app \<Rightarrow> py_exn option \<times> app" where
  "process_upload w inp file st =
     (case image_open w file of
        Inl e \<Rightarrow> (Some e, st)
      | Inr img \<Rightarrow>
          (let st1 = say (ImageShown (py ''Uploaded Invoice'')) st
           in case secrets_get st1 OPENAI_API_KEY of
                Inl e \<Rightarrow> (Some e, st1)
              | Inr k \<Rightarrow>
                  if \<not> key_given k
                  then (None,
                        say (Warning
                               (py ''Please enter your OpenAI API key in the sidebar to proceed.''))
                          st1)
                  else
                    (let st2 = say (Button (128269 # py '' Extract Invoice Data'')) st1
                     in if extract_clicked inp then on_click w img st2 else (None, st2))))"

text \<open>
  Lines 145 to 159. With a text in the key field the assignment of line 150 raises, and
  nothing catches it: the sidebar ends there, with the exception.
\<close>

definition sidebar :: "'f inputs \<Rightarrow> app \<Rightarrow> py_exn option \<times> app" where
  "sidebar inp st =
     (let st1 = say (TextInput (py ''OpenAI API Key'')) (say (Header (128273 # py '' Setup'')) st)
      in if api_key_input inp \<noteq> []
         then (Some (secrets_setitem st1 OPENAI_API_KEY (api_key_input inp)), st1)
         else
           (None,
            say (Markdown (join_lines
                   [[],
                    py ''    1. Enter your OpenAI API key'',
                    py ''    2. Upload an invoice image'',
                    py ''    3. Click '' @ [39] @ py ''Extract Invoice Data'' @ [39],
                    py ''    4. View and download results'',
                    py ''    '']))
              (say (Header (128202 # py '' Instructions'')) st1)))"

definition footer :: "app \<Rightarrow> app" where
  "footer st =
     say (Markdown (py ''Built with '' @ [10084, 65039] @
                    py '' using Streamlit and OpenAI Vision API''))
       (say (Markdown (py ''---'')) st)"

text \<open>Lines 161 to 226, reached when the sidebar has ended normally.\<close>

definition main_area :: "('f, 'i) world \<Rightarrow> 'f inputs \<Rightarrow> app \<Rightarrow> app" where
  "main_area w inp st =
     (let st3 = say (FileUploader (py ''Choose an invoice image...'')) st
      in case uploaded_file inp of
           None \<Rightarrow> footer st3
         | Some file \<Rightarrow>
             (case process_upload w inp file
                     (say (Subheader (128248 # py '' Uploaded Invoice'')) st3) of
                (Some e, st4) \<Rightarrow>
                  footer (say (Error [Lit (py ''Error processing image: ''), FmtExn e]) st4)
              | (None, st4) \<Rightarrow> footer st4))"

text \<open>
  One run of the script, lines 141 to 226, with the exception that stops it, if any:
  the one the sidebar raises. What the \<open>try\<close> of lines 172 to 222 catches is shown and
  the run goes on to the footer.
\<close>

definition script :: "('f, 'i) world \<Rightarrow> 'f inputs \<Rightarrow> app \<Rightarrow> py_exn option \<times> app" where
  "script w inp st =
     (let st1 = say (Markdown
                       (py ''Upload an invoice image and extract structured data automatically!''))
                  (say (Title (128196 # py '' Invoice Data Extractor'')) (say PageConfig st))
      in case sidebar inp st1 of
           (Some e, st2) \<Rightarrow> (Some e, st2)
         | (None, st2) \<Rightarrow> (None, main_area w inp st2))"

subsection \<open>What the display is to show\<close>

text \<open>
  What the spec has the display show for a field: the value the result has for the
  key, and "N/A" when the key is missing.
\<close>

definition field_or_NA :: "(pystr \<times> pyval) list \<Rightarrow> pystr \<Rightarrow> pyval" where
  "field_or_NA kvs k = (case dict_get kvs k of None \<Rightarrow> PStr (py ''N/A'') | Some v \<Rightarrow> v)"


subsection \<open>Reading a trace\<close>

text \<open>
  What a user can see of a run, read off its trace: the requests that went out, the
  buttons that were offered, and the warnings that were shown.
\<close>

fun requests :: "event list \<Rightarrow> request list" where
  "requests [] = []"
| "requests (ApiRequest r # es) = r # requests es"
| "requests (e # es) = requests es"

fun buttons :: "event list \<Rightarrow> pystr list" where
  "buttons [] = []"
| "buttons (Button label # es) = label # buttons es"
| "buttons (e # es) = buttons es"



subsection \<open>What may follow a number\<close>

text \<open>
  A text that may follow a number without changing how the number is read: it is empty
  or starts with a character that cannot continue a number.
\<close>

definition delimited :: "pystr \<Rightarrow> bool" where
  "delimited t = (case t of [] \<Rightarrow> True | x # xs \<Rightarrow> \<not> is_digit x \<and> x \<noteq> 46 \<and> x \<noteq> 101 \<and> x \<noteq> 69)"

subsection \<open>The text of a value\<close>

text \<open>
  \<open>value_text c v\<close>: the text \<open>c\<close> is read by \<open>scan_once\<close> as the value \<open>v\<close>, completely
  and whatever follows it, as long as what follows cannot continue a number. Such a text
  starts and ends with a character that is not white space, and does not start with a
  backquote or a byte order mark. \<open>array_text\<close> and \<open>object_text\<close> say the same of the
  loops over the elements of an array and the members of an object, from the first
  element or key to the closing bracket.
\<close>

definition value_text :: "pystr \<Rightarrow> pyval \<Rightarrow> bool" where
  "value_text c v =
     (c \<noteq> [] \<and> \<not> isspace (hd c) \<and> hd c \<noteq> 96 \<and> hd c \<noteq> 65279 \<and> \<not> isspace (last c) \<and>
      (\<forall>t. delimited t \<longrightarrow> scan_once (c @ t) = Some (v, t)))"

definition array_text :: "pystr \<Rightarrow> pyval list \<Rightarrow> pyval \<Rightarrow> bool" where
  "array_text c acc v =
     (c \<noteq> [] \<and> last c = 93 \<and> (\<forall>t. parse_array (c @ t) acc = Some (v, t)))"

definition object_text :: "pystr \<Rightarrow> (pystr \<times> pyval) list \<Rightarrow> pyval \<Rightarrow> bool" where
  "object_text c acc v =
     (c \<noteq> [] \<and> last c = 125 \<and> (\<forall>t. parse_object (c @ t) acc = Some (v, t)))"

section \<open>A world to run the script in\<close>

text \<open>
  The service answers every request with one choice
  holding the given text, every upload opens as an image, every image is written as
  the same four bytes, and \<open>pd.DataFrame\<close> refuses a text and a dictionary. In the state
  \<open>app0\<close> the secrets file holds a key and nothing has been shown yet.
\<close>

definition world0 :: "pystr \<Rightarrow> (unit, unit) world" where
  "world0 content =
     \<lparr>image_open = (\<lambda>f. Inr ()), save_png = (\<lambda>i. Inr [137, 80, 78, 71]),
      chat_create = (\<lambda>r. Inr [Some content]),
      frame_error = (\<lambda>v. case v of PStr s \<Rightarrow> Some ValueError | PDict kvs \<Rightarrow> Some ValueError
                              | _ \<Rightarrow> None),
      float_repr = (\<lambda>f. []), linesep = [10]\<rparr>"

definition app0 :: app where
  "app0 = \<lparr>secrets = Some [(OPENAI_API_KEY, py ''sk-test'')], client_cache = None, trace = []\<rparr>"






text \<open>The line items of the spec's CSV example: one item with four text fields.\<close>

definition example_items :: pyval where
  "example_items =
     PList [PDict [(py ''description'', PStr (py ''A'')), (py ''quantity'', PStr (py ''2'')),
                   (py ''unit_price'', PStr (py ''5'')), (py ''total_price'', PStr (py ''10''))]]"

section \<open>Properties of fence stripping\<close>

lemma py_slice_from_to_end:
  assumes "0 < m"
  shows "py_slice s (int k) (- int m) = drop k (take (length s - m) s)"
proof -
  from assms have neg: "- int m < 0" by simp
  show ?thesis
  proof (cases "m \<le> length s")
    case True
    then have stop: "max (- int m + int (length s)) 0 = int (length s - m)"
      by (simp add: max_def of_nat_diff)
    show ?thesis
    proof (cases "k \<le> length s")
      case True
      then have "py_slice s (int k) (- int m) = take (length s - m - k) (drop k s)"
        using neg stop by (simp add: py_slice_def Let_def min_def nat_diff_distrib')
      then show ?thesis by (simp add: drop_take)
    next
      case False
      then show ?thesis
        using neg stop by (simp add: py_slice_def Let_def min_def)
    qed
  next
    case False
    then have "max (- int m + int (length s)) 0 = 0"
      by (simp add: max_def)
    then show ?thesis
      using neg False by (simp add: py_slice_def Let_def)
  qed
qed

lemma length_fence_json: "length (py ''```json'') = 7"
  by (simp add: py_def)

lemma length_fence_plain: "length (py ''```'') = 3"
  by (simp add: py_def)

lemma middle_decomposition:
  assumes "k + m \<le> length s"
  shows "s = take k s @ drop k (take (length s - m) s) @ drop (length s - m) s"
proof -
  from assms have "min k (length s - m) = k" by simp
  then have "take k (take (length s - m) s) = take k s"
    by (simp add: take_take)
  then have "take (length s - m) s = take k s @ drop k (take (length s - m) s)"
    using append_take_drop_id [of k "take (length s - m) s"] by simp
  then have "take (length s - m) s @ drop (length s - m) s =
      (take k s @ drop k (take (length s - m) s)) @ drop (length s - m) s"
    by (rule arg_cong [where f = "\<lambda>x. x @ drop (length s - m) s"])
  then show ?thesis
    by (simp only: append_take_drop_id append_assoc)
qed

text \<open>
  C3. After a body starting with \<open>```json\<close> the step keeps exactly the positions from 7
  up to the length minus 3, and after a body starting with \<open>```\<close> but not
  \<open>```json\<close> the positions from 3 up to the length minus 3: the first 7 (or 3) and
  the last 3 characters are removed whatever they are, and nothing looks for a closing
  fence. A body long enough is the opening marker, then the result, then three more
  characters.
\<close>

theorem strip_fence_fixed_offsets:
  "(startswith c (py ''```json'') \<longrightarrow>
      strip_fence c = drop 7 (take (length c - 3) c) \<and>
      length (strip_fence c) = length c - 10 \<and>
      (10 \<le> length c \<longrightarrow>
         (\<exists>suf. length suf = 3 \<and> c = py ''```json'' @ strip_fence c @ suf))) \<and>
   (startswith c (py ''```'') \<and> \<not> startswith c (py ''```json'') \<longrightarrow>
      strip_fence c = drop 3 (take (length c - 3) c) \<and>
      length (strip_fence c) = length c - 6 \<and>
      (6 \<le> length c \<longrightarrow>
         (\<exists>suf. length suf = 3 \<and> c = py ''```'' @ strip_fence c @ suf)))"
proof (intro conjI impI)
  assume h: "startswith c (py ''```json'')"
  have s7: "py_slice c 7 (- 3) = drop 7 (take (length c - 3) c)"
    using py_slice_from_to_end [where s = c and k = 7 and m = 3] by simp
  show eq: "strip_fence c = drop 7 (take (length c - 3) c)"
    using h s7 by (simp add: strip_fence_def)
  show "length (strip_fence c) = length c - 10"
    using eq by simp
  {
    assume len: "10 \<le> length c"
    have t7: "take 7 c = py ''```json''"
      using h unfolding startswith_def length_fence_json .
    have "c = take 7 c @ drop 7 (take (length c - 3) c) @ drop (length c - 3) c"
      using middle_decomposition [of 7 3 c] len by simp
    then have "c = py ''```json'' @ strip_fence c @ drop (length c - 3) c"
      using t7 eq by simp
    moreover have "length (drop (length c - 3) c) = 3"
      using len by simp
    ultimately show "\<exists>suf. length suf = 3 \<and> c = py ''```json'' @ strip_fence c @ suf"
      by blast
  }
next
  assume h: "startswith c (py ''```'') \<and> \<not> startswith c (py ''```json'')"
  have s3: "py_slice c 3 (- 3) = drop 3 (take (length c - 3) c)"
    using py_slice_from_to_end [where s = c and k = 3 and m = 3] by simp
  show eq: "strip_fence c = drop 3 (take (length c - 3) c)"
    using h s3 by (simp add: strip_fence_def)
  show "length (strip_fence c) = length c - 6"
    using eq by simp
  {
    assume len: "6 \<le> length c"
    have t3: "take 3 c = py ''```''"
      using h unfolding startswith_def length_fence_plain by simp
    have "c = take 3 c @ drop 3 (take (length c - 3) c) @ drop (length c - 3) c"
      using middle_decomposition [of 3 3 c] len by simp
    then have "c = py ''```'' @ strip_fence c @ drop (length c - 3) c"
      using t3 eq by simp
    moreover have "length (drop (length c - 3) c) = 3"
      using len by simp
    ultimately show "\<exists>suf. length suf = 3 \<and> c = py ''```'' @ strip_fence c @ suf"
      by blast
  }
qed

text \<open>
  The theorem at two bodies with no closing fence: the last three characters of the
  JSON text are cut off all the same.
\<close>

theorem strip_fence_fixed_offsets_witness:
  "startswith (py ''```json[1, 2]'') (py ''```json'') \<and>
   strip_fence (py ''```json[1, 2]'') = py ''[1,'' \<and>
   startswith (py ''```[1, 2]'') (py ''```'') \<and>
   \<not> startswith (py ''```[1, 2]'') (py ''```json'') \<and>
   strip_fence (py ''```[1, 2]'') = py ''[1,''"
  using strip_fence_fixed_offsets [of "py ''```json[1, 2]''"]
    strip_fence_fixed_offsets [of "py ''```[1, 2]''"]
  by (simp add: py_def startswith_def)

section \<open>Properties of extraction\<close>

lemma trace_say: "trace (say e st) = trace st @ [e]"
  by (simp add: say_def)

lemma secrets_say: "secrets (say e st) = secrets st"
  by (simp add: say_def)

lemma client_cache_say: "client_cache (say e st) = client_cache st"
  by (simp add: say_def)

lemma init_openai_app0:
  "init_openai app0 = (Inr (py ''sk-test''), app0\<lparr>client_cache := Some (py ''sk-test'')\<rparr>)"
  by (simp add: init_openai_def secrets_getitem_def app0_def)

lemma encode_image_world0: "encode_image (world0 c) () = Inr (py ''iVBORw=='')"
  by (simp add: encode_image_def world0_def b64char_def py_def)

lemma chat_create_world0: "chat_create (world0 c) r = Inr [Some c]"
  by (simp add: world0_def)

lemma prose_not_json: "parse_content (py ''I cannot read this invoice.'') = Inl JSONDecodeError"
proof -
  have "strip_fence (strip (py ''I cannot read this invoice.'')) = py ''I cannot read this invoice.''"
    by (simp add: strip_def strip_fence_def startswith_def py_def isspace_def)
  moreover have "skip_ws (py ''I cannot read this invoice.'') = py ''I cannot read this invoice.''"
    by (simp add: skip_ws_def is_json_ws_def py_def)
  moreover have "scan_once (py ''I cannot read this invoice.'') = None"
    by (simp add: py_def match_number_def scan_sign_def scan_integer_def)
  moreover have "\<not> startswith (py ''I cannot read this invoice.'') [65279]"
    by (simp add: startswith_def py_def)
  ultimately show ?thesis
    by (simp add: parse_content_def json_loads_def)
qed

text \<open>
  C2. When the message content does not parse as JSON after stripping and fence
  cutting, \<open>extract_invoice_data\<close> shows the error after the request it made and
  returns \<open>None\<close>: no dictionary, filled or partly filled, comes back.
\<close>

theorem extraction_parse_failure:
  assumes "init_openai st = (Inr key, st1)"
    and "encode_image w img = Inr base64_image"
    and "chat_create w (completion_request key base64_image) = Inr (Some content # choices)"
    and "parse_content content = Inl e"
  shows "extract_invoice_data w img st =
           (PNone, say (Error [Lit (py ''Error extracting data: ''), FmtExn e])
                     (say (ApiRequest (completion_request key base64_image)) st1))"
  using assms by (simp add: extract_invoice_data_def error_extracting_def Let_def)

theorem extraction_parse_failure_witness:
  "extract_invoice_data (world0 (py ''I cannot read this invoice.'')) () app0 =
     (PNone, say (Error [Lit (py ''Error extracting data: ''), FmtExn JSONDecodeError])
               (say (ApiRequest (completion_request (py ''sk-test'') (py ''iVBORw=='')))
                  (app0\<lparr>client_cache := Some (py ''sk-test'')\<rparr>)))"
  by (rule extraction_parse_failure [OF init_openai_app0 encode_image_world0 chat_create_world0
        prose_not_json])


lemma empty_object_parses: "parse_content (py ''{}'') = Inr (PDict [])"
proof -
  have "strip_fence (strip (py ''{}'')) = py ''{}''"
    by (simp add: strip_def strip_fence_def startswith_def py_def isspace_def)
  moreover have "skip_ws (py ''{}'') = py ''{}''"
    by (simp add: skip_ws_def is_json_ws_def py_def)
  moreover have "scan_once (py ''{}'') = Some (PDict [], [])"
    by (simp add: py_def skip_ws_def is_json_ws_def)
  moreover have "\<not> startswith (py ''{}'') [65279]"
    by (simp add: startswith_def py_def)
  ultimately show ?thesis
    by (simp add: parse_content_def json_loads_def skip_ws_def)
qed

text \<open>
  C10. A click whose extraction ends with a falsy value adds nothing to what the
  extraction itself has shown, whether the value is \<open>None\<close> after a failure or a falsy
  value that parsed: no success message, no display, no download, and no exception.
  When the content parses to a falsy value the trace ends with the request; when it does
  not parse it ends with the error shown after the request.
\<close>

theorem falsy_result_not_presented:
  "(\<not> truthy (fst (extract_invoice_data w img (say (Spinner (py ''Analyzing invoice...'')) st))) \<longrightarrow>
      on_click w img st =
        (None, snd (extract_invoice_data w img (say (Spinner (py ''Analyzing invoice...'')) st)))) \<and>
   (init_openai (say (Spinner (py ''Analyzing invoice...'')) st) = (Inr key, st1) \<and>
    encode_image w img = Inr base64_image \<and>
    chat_create w (completion_request key base64_image) = Inr (Some content # choices) \<longrightarrow>
      (\<forall>v. parse_content content = Inr v \<and> \<not> truthy v \<longrightarrow>
         on_click w img st = (None, say (ApiRequest (completion_request key base64_image)) st1)) \<and>
      (\<forall>e. parse_content content = Inl e \<longrightarrow>
         on_click w img st =
           (None, say (Error [Lit (py ''Error extracting data: ''), FmtExn e])
                    (say (ApiRequest (completion_request key base64_image)) st1))))"
proof (intro conjI impI allI)
  assume "\<not> truthy (fst (extract_invoice_data w img (say (Spinner (py ''Analyzing invoice...'')) st)))"
  moreover obtain v st' where
    "extract_invoice_data w img (say (Spinner (py ''Analyzing invoice...'')) st) = (v, st')"
    by (cases "extract_invoice_data w img (say (Spinner (py ''Analyzing invoice...'')) st)")
  ultimately show "on_click w img st =
      (None, snd (extract_invoice_data w img (say (Spinner (py ''Analyzing invoice...'')) st)))"
    by (simp add: on_click_def)
next
  fix v
  assume a: "init_openai (say (Spinner (py ''Analyzing invoice...'')) st) = (Inr key, st1) \<and>
    encode_image w img = Inr base64_image \<and>
    chat_create w (completion_request key base64_image) = Inr (Some content # choices)"
    and b: "parse_content content = Inr v \<and> \<not> truthy v"
  from a b have "extract_invoice_data w img (say (Spinner (py ''Analyzing invoice...'')) st) =
      (v, say (ApiRequest (completion_request key base64_image)) st1)"
    by (simp add: extract_invoice_data_def Let_def)
  with b show "on_click w img st = (None, say (ApiRequest (completion_request key base64_image)) st1)"
    by (simp add: on_click_def)
next
  fix e
  assume a: "init_openai (say (Spinner (py ''Analyzing invoice...'')) st) = (Inr key, st1) \<and>
    encode_image w img = Inr base64_image \<and>
    chat_create w (completion_request key base64_image) = Inr (Some content # choices)"
    and b: "parse_content content = Inl e"
  from a b have "extract_invoice_data w img (say (Spinner (py ''Analyzing invoice...'')) st) =
      (PNone, say (Error [Lit (py ''Error extracting data: ''), FmtExn e])
                (say (ApiRequest (completion_request key base64_image)) st1))"
    by (simp add: extract_invoice_data_def error_extracting_def Let_def)
  then show "on_click w img st =
      (None, say (Error [Lit (py ''Error extracting data: ''), FmtExn e])
               (say (ApiRequest (completion_request key base64_image)) st1))"
    by (simp add: on_click_def)
qed

lemma init_openai_spinner_app0:
  "init_openai (say (Spinner s) app0) =
     (Inr (py ''sk-test''), (say (Spinner s) app0)\<lparr>client_cache := Some (py ''sk-test'')\<rparr>)"
  by (simp add: init_openai_def secrets_getitem_def app0_def say_def)

theorem falsy_result_not_presented_witness:
  "on_click (world0 (py ''{}'')) () app0 =
     (None, say (ApiRequest (completion_request (py ''sk-test'') (py ''iVBORw=='')))
              ((say (Spinner (py ''Analyzing invoice...'')) app0)
                 \<lparr>client_cache := Some (py ''sk-test'')\<rparr>))"
  using falsy_result_not_presented [of "world0 (py ''{}'')" "()" app0 "py ''sk-test''"
      "(say (Spinner (py ''Analyzing invoice...'')) app0)\<lparr>client_cache := Some (py ''sk-test'')\<rparr>"
      "py ''iVBORw==''" "py ''{}''" "[]"]
    init_openai_spinner_app0 encode_image_world0 chat_create_world0 empty_object_parses
  by simp

section \<open>Properties of the display\<close>

lemma and_then_shown: "and_then (evs, None) b = (evs @ fst b, snd b)"
  by (simp add: and_then_def)

lemma and_then_raised: "and_then (evs, Some e) b = (evs, Some e)"
  by (simp add: and_then_def)

lemma get_or_NA: "get_or kvs k NA = field_or_NA kvs k"
  by (simp add: get_or_def NA_def field_or_NA_def)


lemma invoice_information_accepted:
  assumes "metric_accepts (field_or_NA kvs (py ''invoice_number''))"
    and "metric_accepts (field_or_NA kvs (py ''invoice_date''))"
    and "metric_accepts (field_or_NA kvs (py ''due_date''))"
  shows "invoice_information kvs =
           ([Metric (py ''Invoice Number'') (Value (field_or_NA kvs (py ''invoice_number''))),
             Metric (py ''Invoice Date'') (Value (field_or_NA kvs (py ''invoice_date''))),
             Metric (py ''Due Date'') (Value (field_or_NA kvs (py ''due_date'')))], None)"
  using assms by (simp add: invoice_information_def st_metric_def and_then_def get_or_NA)

lemma invoice_information_refused:
  assumes "\<not> (metric_accepts (field_or_NA kvs (py ''invoice_number'')) \<and>
              metric_accepts (field_or_NA kvs (py ''invoice_date'')) \<and>
              metric_accepts (field_or_NA kvs (py ''due_date'')))"
  shows "\<exists>evs. invoice_information kvs = (evs, Some TypeError) \<and>
           (\<forall>e \<in> set evs. \<exists>label v. e = Metric label v)"
  using assms by (auto simp: invoice_information_def st_metric_def and_then_def get_or_NA)

lemma invoice_information_metrics:
  "\<forall>e \<in> set (fst (invoice_information kvs)). \<exists>label v. e = Metric label v"
  by (auto simp: invoice_information_def st_metric_def and_then_def)

lemma display_events_dict:
  "display_events w (PDict kvs) =
     (case invoice_information kvs of
        (info, Some e) \<Rightarrow>
          ([Subheader (128203 # py '' Invoice Information''), Columns 3] @ info, Some e)
      | (info, None) \<Rightarrow>
          (case line_items_view w kvs of
             (view, Some e) \<Rightarrow>
               ([Subheader (128203 # py '' Invoice Information''), Columns 3] @ info @
                vendor_customer kvs @ [Subheader (128230 # py '' Line Items'')] @ view, Some e)
           | (view, None) \<Rightarrow>
               ([Subheader (128203 # py '' Invoice Information''), Columns 3] @ info @
                vendor_customer kvs @ [Subheader (128230 # py '' Line Items'')] @ view @
                totals kvs, None)))"
proof -
  obtain info r where i: "invoice_information kvs = (info, r)"
    by (cases "invoice_information kvs")
  obtain view r' where v: "line_items_view w kvs = (view, r')"
    by (cases "line_items_view w kvs")
  show ?thesis
    by (cases r; cases r') (simp_all add: display_events_def and_then_def i v)
qed

lemma no_table_in_vendor_customer: "Dataframe v f \<notin> set (vendor_customer kvs)"
  by (simp add: vendor_customer_def)

lemma no_table_in_totals: "Dataframe v f \<notin> set (totals kvs)"
  by (simp add: totals_def total_metric_def)

lemma no_table_in_information: "Dataframe v f \<notin> set (fst (invoice_information kvs))"
  using invoice_information_metrics [of kvs] by auto

lemma line_items_view_falsy:
  "\<not> truthy (get_or kvs (py ''line_items'') PNone) \<Longrightarrow>
     line_items_view w kvs = ([no_line_items], None)"
  by (simp add: line_items_view_def Let_def)

text \<open>
  C5. When the dictionary has no \<open>line_items\<close> key, or has the empty list under it,
  the line items section of lines 122 to 127 is the message "No line items found": it
  builds no frame and does not raise, and no table is shown anywhere in the display.
  The display reaches that section when \<open>st.metric\<close> has accepted the invoice number,
  the invoice date and the due date: then it ends normally, with the message right
  after the "Line Items" heading. When one of the three is a list or a dictionary the
  display has stopped with \<open>TypeError\<close> before the heading.
\<close>

theorem empty_line_items_message:
  assumes "dict_get kvs (py ''line_items'') = None \<or>
           dict_get kvs (py ''line_items'') = Some (PList [])"
  shows "line_items_view w kvs = ([Write [Lit (py ''No line items found'')]], None) \<and>
         (\<forall>v f. Dataframe v f \<notin> set (fst (display_events w (PDict kvs)))) \<and>
         (metric_accepts (field_or_NA kvs (py ''invoice_number'')) \<and>
          metric_accepts (field_or_NA kvs (py ''invoice_date'')) \<and>
          metric_accepts (field_or_NA kvs (py ''due_date'')) \<longrightarrow>
            (\<exists>before.
               display_extracted_data w (PDict kvs) st =
                 (None, st\<lparr>trace := trace st @ before @
                          [Subheader (128230 # py '' Line Items''),
                           Write [Lit (py ''No line items found'')]] @ totals kvs\<rparr>) \<and>
               (\<forall>v f. Dataframe v f \<notin> set (before @ totals kvs)))) \<and>
         (\<not> (metric_accepts (field_or_NA kvs (py ''invoice_number'')) \<and>
             metric_accepts (field_or_NA kvs (py ''invoice_date'')) \<and>
             metric_accepts (field_or_NA kvs (py ''due_date''))) \<longrightarrow>
            snd (display_events w (PDict kvs)) = Some TypeError \<and>
            Subheader (128230 # py '' Line Items'') \<notin> set (fst (display_events w (PDict kvs))))"
proof (intro conjI impI)
  from assms have "\<not> truthy (get_or kvs (py ''line_items'') PNone)"
    by (auto simp: get_or_def)
  then show view: "line_items_view w kvs = ([Write [Lit (py ''No line items found'')]], None)"
    using line_items_view_falsy [of kvs w] by (simp add: no_line_items_def)
  show "\<forall>v f. Dataframe v f \<notin> set (fst (display_events w (PDict kvs)))"
  proof (intro allI)
    fix v f
    obtain info r where i: "invoice_information kvs = (info, r)"
      by (cases "invoice_information kvs")
    then have "Dataframe v f \<notin> set info"
      using no_table_in_information [of v f kvs] by simp
    then show "Dataframe v f \<notin> set (fst (display_events w (PDict kvs)))"
      using no_table_in_vendor_customer [of v f kvs] no_table_in_totals [of v f kvs]
      by (cases r) (simp_all add: display_events_dict i view)
  qed
  {
    assume m: "metric_accepts (field_or_NA kvs (py ''invoice_number'')) \<and>
          metric_accepts (field_or_NA kvs (py ''invoice_date'')) \<and>
          metric_accepts (field_or_NA kvs (py ''due_date''))"
    let ?info = "[Metric (py ''Invoice Number'') (Value (field_or_NA kvs (py ''invoice_number''))),
             Metric (py ''Invoice Date'') (Value (field_or_NA kvs (py ''invoice_date''))),
             Metric (py ''Due Date'') (Value (field_or_NA kvs (py ''due_date'')))]"
    let ?before = "[Subheader (128203 # py '' Invoice Information''), Columns 3] @
                   ?info @ vendor_customer kvs"
    from m have i: "invoice_information kvs = (?info, None)"
      by (simp add: invoice_information_accepted)
    have "display_extracted_data w (PDict kvs) st =
            (None, st\<lparr>trace := trace st @ ?before @
                     [Subheader (128230 # py '' Line Items''),
                      Write [Lit (py ''No line items found'')]] @ totals kvs\<rparr>)"
      by (simp add: display_extracted_data_def display_events_dict i view)
    moreover have "\<forall>v f. Dataframe v f \<notin> set (?before @ totals kvs)"
      using no_table_in_vendor_customer [of _ _ kvs] no_table_in_totals [of _ _ kvs] by simp
    ultimately show "\<exists>before.
               display_extracted_data w (PDict kvs) st =
                 (None, st\<lparr>trace := trace st @ before @
                          [Subheader (128230 # py '' Line Items''),
                           Write [Lit (py ''No line items found'')]] @ totals kvs\<rparr>) \<and>
               (\<forall>v f. Dataframe v f \<notin> set (before @ totals kvs))"
      by blast
  }
  {
    assume "\<not> (metric_accepts (field_or_NA kvs (py ''invoice_number'')) \<and>
             metric_accepts (field_or_NA kvs (py ''invoice_date'')) \<and>
             metric_accepts (field_or_NA kvs (py ''due_date'')))"
    from invoice_information_refused [OF this] obtain evs where
      i: "invoice_information kvs = (evs, Some TypeError)"
      and ms: "\<forall>e \<in> set evs. \<exists>label v. e = Metric label v" by blast
    show "snd (display_events w (PDict kvs)) = Some TypeError"
      by (simp add: display_events_dict i)
    show "Subheader (128230 # py '' Line Items'') \<notin> set (fst (display_events w (PDict kvs)))"
      using ms by (auto simp: display_events_dict i py_def)
  }
qed

theorem empty_line_items_message_witness:
  "line_items_view (world0 []) [(py ''line_items'', PList [])] =
     ([Write [Lit (py ''No line items found'')]], None) \<and>
   line_items_view (world0 []) [(py ''invoice_number'', PList [PInt 1])] =
     ([Write [Lit (py ''No line items found'')]], None) \<and>
   (\<exists>before.
      display_extracted_data (world0 []) (PDict [(py ''line_items'', PList [])]) app0 =
        (None, app0\<lparr>trace := trace app0 @ before @
                 [Subheader (128230 # py '' Line Items''),
                  Write [Lit (py ''No line items found'')]] @
                 totals [(py ''line_items'', PList [])]\<rparr>) \<and>
      (\<forall>v f. Dataframe v f \<notin> set (before @ totals [(py ''line_items'', PList [])]))) \<and>
   snd (display_events (world0 []) (PDict [(py ''invoice_number'', PList [PInt 1])])) =
     Some TypeError"
proof -
  have a: "dict_get [(py ''line_items'', PList [])] (py ''line_items'') = None \<or>
      dict_get [(py ''line_items'', PList [])] (py ''line_items'') = Some (PList [])"
    by simp
  have b: "dict_get [(py ''invoice_number'', PList [PInt 1])] (py ''line_items'') = None \<or>
      dict_get [(py ''invoice_number'', PList [PInt 1])] (py ''line_items'') = Some (PList [])"
    by (simp add: py_def)
  have ma: "metric_accepts (field_or_NA [(py ''line_items'', PList [])] (py ''invoice_number''))"
    "metric_accepts (field_or_NA [(py ''line_items'', PList [])] (py ''invoice_date''))"
    "metric_accepts (field_or_NA [(py ''line_items'', PList [])] (py ''due_date''))"
    by (simp_all add: field_or_NA_def metric_accepts_def py_def)
  have mb: "\<not> metric_accepts
      (field_or_NA [(py ''invoice_number'', PList [PInt 1])] (py ''invoice_number''))"
    by (simp add: field_or_NA_def metric_accepts_def)
  from empty_line_items_message [OF a, of "world0 []" app0]
    empty_line_items_message [OF b, of "world0 []" app0] ma mb
  show ?thesis by blast
qed








section \<open>Properties of the script\<close>

lemma requests_append: "requests (xs @ ys) = requests xs @ requests ys"
  by (induction xs rule: requests.induct) simp_all

lemma buttons_append: "buttons (xs @ ys) = buttons xs @ buttons ys"
  by (induction xs rule: buttons.induct) simp_all







text \<open>
  With a text in the key field the script stops in the sidebar, at the assignment of
  line 150: nothing of the main area is run, so no button is offered and no request
  made in that run either.
\<close>

lemma typed_key_stops_script:
  assumes "api_key_input inp \<noteq> []"
  shows "fst (script w inp st) = Some TypeError \<and>
         requests (trace (snd (script w inp st))) = requests (trace st) \<and>
         buttons (trace (snd (script w inp st))) = buttons (trace st)"
  using assms
  by (simp add: script_def sidebar_def Let_def secrets_setitem_def say_def requests_append
      buttons_append)






section \<open>Properties of the exports\<close>

lemma example_frame:
  "DataFrame example_items =
     Some ([py ''description'', py ''quantity'', py ''unit_price'', py ''total_price''],
           [[Some (py ''A''), Some (py ''2''), Some (py ''5''), Some (py ''10'')]])"
  by (simp add: DataFrame_def example_items_def column_union_def py_def)

lemma plain_field:
  assumes "\<forall>c \<in> set s. c \<noteq> 44 \<and> c \<noteq> 34 \<and> c \<noteq> 13 \<and> c \<noteq> 10"
    and "set sep \<subseteq> {10, 13}"
  shows "csv_field sep s = s"
  using assms by (auto simp: csv_field_def list_ex_iff)

lemma example_csv:
  assumes "sep = [10] \<or> sep = [13, 10]"
  shows "map_option (to_csv sep) (DataFrame example_items) =
           Some (py ''description,quantity,unit_price,total_price'' @ sep @ py ''A,2,5,10'' @ sep)"
proof -
  have sep: "set sep \<subseteq> {10, 13}"
    using assms by auto
  have f: "csv_field sep (py ''description'') = py ''description''"
    "csv_field sep (py ''quantity'') = py ''quantity''"
    "csv_field sep (py ''unit_price'') = py ''unit_price''"
    "csv_field sep (py ''total_price'') = py ''total_price''"
    "csv_field sep (py ''A'') = py ''A''"
    "csv_field sep (py ''2'') = py ''2''"
    "csv_field sep (py ''5'') = py ''5''"
    "csv_field sep (py ''10'') = py ''10''"
    by (rule plain_field [OF _ sep], simp add: py_def)+
  show ?thesis
    unfolding example_frame
    by (simp add: to_csv_def csv_row_def f) (simp add: py_def)
qed


text \<open>
  C7. For a result whose line items are the one item of the spec's example, the CSV
  download offered by lines 206 to 215 holds exactly the header row
  \<open>description,quantity,unit_price,total_price\<close> and the data row \<open>A,2,5,10\<close>, each ended
  by the platform's line separator.
\<close>

theorem csv_export_of_example:
  assumes "linesep w = [10] \<or> linesep w = [13, 10]"
  shows "\<exists>evs.
     download_options w (PDict [(py ''line_items'', example_items)]) st =
       (None, st\<lparr>trace := trace st @ evs\<rparr>) \<and>
     DownloadButton (128202 # py '' Download Line Items CSV'')
       (Some (py ''description,quantity,unit_price,total_price'' @ linesep w @
              py ''A,2,5,10'' @ linesep w))
       (py ''invoice_line_items.csv'') (py ''text/csv'') \<in> set evs"
proof -
  have li: "get_or [(py ''line_items'', example_items)] (py ''line_items'') PNone = example_items"
    by (simp add: get_or_def)
  have tr: "truthy example_items"
    by (simp add: example_items_def)
  let ?csv = "DownloadButton (128202 # py '' Download Line Items CSV'')
       (Some (py ''description,quantity,unit_price,total_price'' @ linesep w @
              py ''A,2,5,10'' @ linesep w))
       (py ''invoice_line_items.csv'') (py ''text/csv'')"
  let ?evs = "[Subheader (128229 # py '' Download Options''), Columns 2,
       DownloadButton (128196 # py '' Download JSON'')
         (Some (json_dumps (float_repr w) (PDict [(py ''line_items'', example_items)])))
         (py ''invoice_data.json'') (py ''application/json''),
       ?csv, Expander (128269 # py '' View Raw JSON Data''),
       Json (PDict [(py ''line_items'', example_items)])]"
  have fr: "new_frame w example_items = Inr (DataFrame example_items)"
    by (simp add: new_frame_def example_frame)
  have "download_options w (PDict [(py ''line_items'', example_items)]) st =
       (None, st\<lparr>trace := trace st @ ?evs\<rparr>)"
    by (simp add: download_options_def Let_def li tr fr example_csv [OF assms] say_def
        raw_json_def)
  moreover have "?csv \<in> set ?evs"
    by simp
  ultimately show ?thesis by blast
qed

theorem csv_export_of_example_witness:
  "\<exists>evs.
     download_options (world0 []) (PDict [(py ''line_items'', example_items)]) app0 =
       (None, app0\<lparr>trace := trace app0 @ evs\<rparr>) \<and>
     DownloadButton (128202 # py '' Download Line Items CSV'')
       (Some (py ''description,quantity,unit_price,total_price'' @ [10] @ py ''A,2,5,10'' @ [10]))
       (py ''invoice_line_items.csv'') (py ''text/csv'') \<in> set evs"
proof -
  have l: "linesep (world0 []) = [10]"
    by (simp add: world0_def)
  then have "linesep (world0 []) = [10] \<or> linesep (world0 []) = [13, 10]"
    by simp
  from csv_export_of_example [OF this, of app0] show ?thesis
    unfolding l .
qed

section \<open>What the decoder reads\<close>

lemma delimited_Nil: "delimited []"
  by (simp add: delimited_def)

lemma delimited_Cons: "delimited (x # xs) = (\<not> is_digit x \<and> x \<noteq> 46 \<and> x \<noteq> 101 \<and> x \<noteq> 69)"
  by (simp add: delimited_def)

lemma json_ws_isspace: "is_json_ws c \<Longrightarrow> isspace c"
  by (auto simp: is_json_ws_def isspace_def)

lemma json_ws_delimits: "is_json_ws x \<Longrightarrow> delimited (x # xs)"
  by (auto simp: is_json_ws_def delimited_def is_digit_def)

lemma skip_ws_split: "\<exists>w. s = w @ skip_ws s \<and> (\<forall>x \<in> set w. is_json_ws x)"
proof -
  have "s = takeWhile is_json_ws s @ skip_ws s"
    by (simp add: skip_ws_def)
  moreover have "\<forall>x \<in> set (takeWhile is_json_ws s). is_json_ws x"
    by (auto dest: set_takeWhileD)
  ultimately show ?thesis by blast
qed

lemma skip_ws_past: "\<forall>x \<in> set w. is_json_ws x \<Longrightarrow> skip_ws (w @ s) = skip_ws s"
  by (simp add: skip_ws_def dropWhile_append2)

lemma skip_ws_stop: "\<not> is_json_ws x \<Longrightarrow> skip_ws (x # s) = x # s"
  by (simp add: skip_ws_def)

lemma skip_ws_Nil: "skip_ws [] = []"
  by (simp add: skip_ws_def)

lemma skip_ws_head: "skip_ws r = d # r' \<Longrightarrow> \<not> is_json_ws d"
  unfolding skip_ws_def using hd_dropWhile [of is_json_ws r] by auto

lemma skip_ws_found:
  assumes "skip_ws r = d # r'"
  shows "\<exists>w. r = w @ d # r' \<and> (\<forall>x \<in> set w. is_json_ws x) \<and> \<not> is_json_ws d"
  using skip_ws_split [of r] skip_ws_head [OF assms] assms by auto

lemma skip_ws_all: "skip_ws r = [] \<Longrightarrow> \<forall>x \<in> set r. is_json_ws x"
  using skip_ws_split [of r] by auto

subsection \<open>Numbers\<close>

lemma takeWhile_stops:
  assumes "\<forall>x \<in> set ds. P x" and "t = [] \<or> \<not> P (hd t)"
  shows "takeWhile P (ds @ t) = ds" and "dropWhile P (ds @ t) = t"
proof -
  from assms(2) have "takeWhile P t = []" "dropWhile P t = t"
    by (cases t; auto)+
  with assms(1) show "takeWhile P (ds @ t) = ds" "dropWhile P (ds @ t) = t"
    by (simp_all add: takeWhile_append2 dropWhile_append2)
qed

lemma digits_run: "\<forall>x \<in> set (takeWhile is_digit r). is_digit x"
  by (auto dest: set_takeWhileD)

lemma scan_integer_reads:
  assumes "scan_integer s = Some (ip, r)"
  shows "s = ip @ r \<and> ip \<noteq> [] \<and> is_digit (hd ip) \<and> is_digit (last ip) \<and>
         (\<forall>t. t = [] \<or> \<not> is_digit (hd t) \<longrightarrow> scan_integer (ip @ t) = Some (ip, t))"
proof (cases s)
  case Nil
  with assms show ?thesis by (simp add: scan_integer_def)
next
  case (Cons c r0)
  show ?thesis
  proof (cases "49 \<le> c \<and> c \<le> 57")
    case True
    with assms Cons have ip: "ip = c # takeWhile is_digit r0" and r: "r = dropWhile is_digit r0"
      by (simp_all add: scan_integer_def)
    have c: "is_digit c" using True by (simp add: is_digit_def)
    have all: "\<forall>x \<in> set (takeWhile is_digit r0). is_digit x" by (rule digits_run)
    have "is_digit (last ip)"
      using ip c all by (cases "takeWhile is_digit r0 = []") auto
    moreover have "s = ip @ r"
      using Cons ip r by simp
    moreover have "\<forall>t. t = [] \<or> \<not> is_digit (hd t) \<longrightarrow> scan_integer (ip @ t) = Some (ip, t)"
      using True ip takeWhile_stops [OF all] by (simp add: scan_integer_def)
    ultimately show ?thesis using ip c by simp
  next
    case False
    with assms Cons have "c = 48" "ip = [c]" "r = r0"
      by (auto simp: scan_integer_def split: if_splits)
    with Cons show ?thesis
      by (simp add: scan_integer_def is_digit_def)
  qed
qed

lemma scan_fraction_none: "t = [] \<or> hd t \<noteq> 46 \<Longrightarrow> scan_fraction t = ([], t)"
  by (cases t) (auto simp: scan_fraction_def split: list.splits)

lemma scan_fraction_reads:
  assumes "scan_fraction s = (fp, r)"
  shows "(fp = [] \<and> r = s) \<or>
         (fp \<noteq> [] \<and> s = 46 # fp @ r \<and> is_digit (last fp) \<and>
          (\<forall>t. t = [] \<or> \<not> is_digit (hd t) \<longrightarrow> scan_fraction (46 # fp @ t) = (fp, t)))"
proof (cases "\<exists>f r0. s = 46 # f # r0 \<and> is_digit f")
  case False
  with assms show ?thesis
    by (auto simp: scan_fraction_def split: list.splits if_splits)
next
  case True
  then obtain f r0 where s: "s = 46 # f # r0" and f: "is_digit f" by blast
  with assms have fp: "fp = f # takeWhile is_digit r0" and r: "r = dropWhile is_digit r0"
    by (simp_all add: scan_fraction_def)
  have all: "\<forall>x \<in> set (takeWhile is_digit r0). is_digit x" by (rule digits_run)
  have "is_digit (last fp)"
    using fp f all by (cases "takeWhile is_digit r0 = []") auto
  moreover have "s = 46 # fp @ r"
    using s fp r by simp
  moreover have "\<forall>t. t = [] \<or> \<not> is_digit (hd t) \<longrightarrow> scan_fraction (46 # fp @ t) = (fp, t)"
    using f fp takeWhile_stops [OF all] by (simp add: scan_fraction_def)
  ultimately show ?thesis using fp by simp
qed

lemma scan_exponent_none:
  "t = [] \<or> (hd t \<noteq> 101 \<and> hd t \<noteq> 69) \<Longrightarrow> scan_exponent t = (None, t)"
  by (cases t) (auto simp: scan_exponent_def)

lemma scan_exponent_reads:
  assumes "scan_exponent s = (ep, r)"
  shows "(ep = None \<and> r = s) \<or>
         (\<exists>x. ep \<noteq> None \<and> s = x @ r \<and> x \<noteq> [] \<and> (hd x = 101 \<or> hd x = 69) \<and>
              is_digit (last x) \<and>
              (\<forall>t. t = [] \<or> \<not> is_digit (hd t) \<longrightarrow> scan_exponent (x @ t) = (ep, t)))"
proof (cases "ep = None")
  case True
  with assms show ?thesis
    by (auto simp: scan_exponent_def Let_def split: list.splits if_splits prod.splits)
next
  case False
  from assms False obtain e r0 where s: "s = e # r0" and e: "e = 101 \<or> e = 69" and r0: "r0 \<noteq> []"
    by (cases s) (auto simp: scan_exponent_def split: if_splits)
  show ?thesis
  proof (cases "\<exists>c r'. r0 = c # r' \<and> (c = 45 \<or> c = 43) \<and> r' \<noteq> []")
    case True
    then obtain c r' where c: "r0 = c # r'" "c = 45 \<or> c = 43" "r' \<noteq> []" by blast
    let ?ds = "takeWhile is_digit r'"
    from assms False s e c have ds: "?ds \<noteq> []" and ep: "ep = Some (c = 45, ?ds)"
      and r: "r = dropWhile is_digit r'"
      by (auto simp: scan_exponent_def Let_def split: if_splits)
    have all: "\<forall>x \<in> set ?ds. is_digit x" by (rule digits_run)
    let ?x = "e # c # ?ds"
    have "s = ?x @ r" using s c r by simp
    moreover have "is_digit (last ?x)" using ds all by simp
    moreover have "\<forall>t. t = [] \<or> \<not> is_digit (hd t) \<longrightarrow> scan_exponent (?x @ t) = (ep, t)"
      using e c ds ep takeWhile_stops [OF all] by (auto simp: scan_exponent_def Let_def)
    ultimately show ?thesis using False e by (intro disjI2 exI [of _ ?x]) simp
  next
    case nosign: False
    let ?ds = "takeWhile is_digit r0"
    from nosign have pick: "(case r0 of [] \<Rightarrow> (False, r0)
        | c # r' \<Rightarrow> if (c = 45 \<or> c = 43) \<and> r' \<noteq> [] then (c = 45, r') else (False, r0)) = (False, r0)"
      by (cases r0) auto
    from assms False s e r0 pick have ds: "?ds \<noteq> []" and ep: "ep = Some (False, ?ds)"
      and r: "r = dropWhile is_digit r0"
      by (auto simp: scan_exponent_def Let_def split: if_splits)
    have all: "\<forall>x \<in> set ?ds. is_digit x" by (rule digits_run)
    from ds all have hd: "is_digit (hd ?ds)" by (cases ?ds) auto
    let ?x = "e # ?ds"
    have "s = ?x @ r" using s r by simp
    moreover have "is_digit (last ?x)" using ds all by simp
    moreover have "\<forall>t. t = [] \<or> \<not> is_digit (hd t) \<longrightarrow> scan_exponent (?x @ t) = (ep, t)"
    proof (intro allI impI)
      fix t :: pystr
      assume t: "t = [] \<or> \<not> is_digit (hd t)"
      obtain d ds' where dd: "?ds = d # ds'" using ds by (cases ?ds) auto
      with hd have d: "is_digit d" by simp
      then have nos: "d \<noteq> 45 \<and> d \<noteq> 43" by (auto simp: is_digit_def)
      have "takeWhile is_digit (?ds @ t) = ?ds" "dropWhile is_digit (?ds @ t) = t"
        using takeWhile_stops [OF all t] by simp_all
      then show "scan_exponent (?x @ t) = (ep, t)"
        using e ep ds dd nos by (simp add: scan_exponent_def Let_def)
    qed
    ultimately show ?thesis using False e by (intro disjI2 exI [of _ ?x]) simp
  qed
qed


lemma unsigned_reads:
  assumes i: "scan_integer s = Some (ip, r1)"
    and f: "scan_fraction r1 = (fp, r2)"
    and x: "scan_exponent r2 = (ep, r)"
  shows "\<exists>c. s = c @ r \<and> c \<noteq> [] \<and> is_digit (hd c) \<and> is_digit (last c) \<and>
           (\<forall>t. delimited t \<longrightarrow>
              (\<exists>r1' r2'. scan_integer (c @ t) = Some (ip, r1') \<and>
                 scan_fraction r1' = (fp, r2') \<and> scan_exponent r2' = (ep, t)))"
proof -
  note I = scan_integer_reads [OF i]
  from I have hdip: "is_digit (hd ip)" by simp
  have del: "\<And>t. delimited t \<Longrightarrow>
      (t = [] \<or> \<not> is_digit (hd t)) \<and> (t = [] \<or> hd t \<noteq> 46) \<and> (t = [] \<or> (hd t \<noteq> 101 \<and> hd t \<noteq> 69))"
    by (case_tac t) (auto simp: delimited_def)
  have dig46: "\<not> is_digit 46" "\<not> is_digit 101" "\<not> is_digit 69"
    by (simp_all add: is_digit_def)
  from scan_fraction_reads [OF f] scan_exponent_reads [OF x]
  consider
      (plain) "fp = []" "r2 = r1" "ep = None" "r = r2"
    | (frac) "fp \<noteq> []" "r1 = 46 # fp @ r2" "is_digit (last fp)"
        "\<forall>t. t = [] \<or> \<not> is_digit (hd t) \<longrightarrow> scan_fraction (46 # fp @ t) = (fp, t)"
        "ep = None" "r = r2"
    | (exp) xs where "fp = []" "r2 = r1" "ep \<noteq> None" "r2 = xs @ r" "xs \<noteq> []"
        "hd xs = 101 \<or> hd xs = 69" "is_digit (last xs)"
        "\<forall>t. t = [] \<or> \<not> is_digit (hd t) \<longrightarrow> scan_exponent (xs @ t) = (ep, t)"
    | (both) xs where "fp \<noteq> []" "r1 = 46 # fp @ r2" "is_digit (last fp)"
        "\<forall>t. t = [] \<or> \<not> is_digit (hd t) \<longrightarrow> scan_fraction (46 # fp @ t) = (fp, t)"
        "ep \<noteq> None" "r2 = xs @ r" "xs \<noteq> []"
        "hd xs = 101 \<or> hd xs = 69" "is_digit (last xs)"
        "\<forall>t. t = [] \<or> \<not> is_digit (hd t) \<longrightarrow> scan_exponent (xs @ t) = (ep, t)"
    by blast
  then show ?thesis
  proof cases
    case plain
    show ?thesis
    proof (rule exI [of _ ip], intro conjI allI impI)
      show "s = ip @ r" using I plain by simp
      show "ip \<noteq> []" using I by simp
      show "is_digit (hd ip)" by (rule hdip)
      show "is_digit (last ip)" using I by simp
      fix t assume t: "delimited t"
      from I del [OF t] have "scan_integer (ip @ t) = Some (ip, t)" by blast
      moreover have "scan_fraction t = (fp, t)"
        using plain scan_fraction_none del [OF t] by simp
      moreover have "scan_exponent t = (ep, t)"
        using plain scan_exponent_none del [OF t] by simp
      ultimately show "\<exists>r1' r2'. scan_integer (ip @ t) = Some (ip, r1') \<and>
                 scan_fraction r1' = (fp, r2') \<and> scan_exponent r2' = (ep, t)"
        by blast
    qed
  next
    case frac
    let ?c = "ip @ 46 # fp"
    show ?thesis
    proof (rule exI [of _ ?c], intro conjI allI impI)
      show "s = ?c @ r" using I frac by simp
      show "?c \<noteq> []" by simp
      show "is_digit (hd ?c)" using hdip I by simp
      show "is_digit (last ?c)" using frac by simp
      fix t assume t: "delimited t"
      from I dig46 have "scan_integer (ip @ (46 # fp @ t)) = Some (ip, 46 # fp @ t)" by simp
      moreover have "scan_fraction (46 # fp @ t) = (fp, t)"
        using frac del [OF t] by blast
      moreover have "scan_exponent t = (ep, t)"
        using frac scan_exponent_none del [OF t] by simp
      ultimately show "\<exists>r1' r2'. scan_integer (?c @ t) = Some (ip, r1') \<and>
                 scan_fraction r1' = (fp, r2') \<and> scan_exponent r2' = (ep, t)"
        by auto
    qed
  next
    case exp
    let ?c = "ip @ xs"
    from exp have hx: "\<not> is_digit (hd (xs @ t))" "hd (xs @ t) \<noteq> 46" for t
      using dig46 by (auto simp: hd_append)
    show ?thesis
    proof (rule exI [of _ ?c], intro conjI allI impI)
      show "s = ?c @ r" using I exp by simp
      show "?c \<noteq> []" using exp by simp
      show "is_digit (hd ?c)" using hdip I by simp
      show "is_digit (last ?c)" using exp by simp
      fix t assume t: "delimited t"
      from I hx have "scan_integer (ip @ (xs @ t)) = Some (ip, xs @ t)" by blast
      moreover have "scan_fraction (xs @ t) = (fp, xs @ t)"
        using exp scan_fraction_none [of "xs @ t"] hx by simp
      moreover have "scan_exponent (xs @ t) = (ep, t)"
        using exp del [OF t] by blast
      ultimately show "\<exists>r1' r2'. scan_integer (?c @ t) = Some (ip, r1') \<and>
                 scan_fraction r1' = (fp, r2') \<and> scan_exponent r2' = (ep, t)"
        by auto
    qed
  next
    case both
    let ?c = "ip @ 46 # fp @ xs"
    from both have hx: "\<not> is_digit (hd (xs @ t))" for t
      using dig46 by (auto simp: hd_append)
    show ?thesis
    proof (rule exI [of _ ?c], intro conjI allI impI)
      show "s = ?c @ r" using I both by simp
      show "?c \<noteq> []" by simp
      show "is_digit (hd ?c)" using hdip I by simp
      show "is_digit (last ?c)" using both by simp
      fix t assume t: "delimited t"
      from I dig46 have "scan_integer (ip @ (46 # fp @ xs @ t)) = Some (ip, 46 # fp @ xs @ t)"
        by simp
      moreover have "scan_fraction (46 # fp @ (xs @ t)) = (fp, xs @ t)"
        using both hx by blast
      moreover have "scan_exponent (xs @ t) = (ep, t)"
        using both del [OF t] by blast
      ultimately show "\<exists>r1' r2'. scan_integer (?c @ t) = Some (ip, r1') \<and>
                 scan_fraction r1' = (fp, r2') \<and> scan_exponent r2' = (ep, t)"
        by auto
    qed
  qed
qed


lemma match_number_reads:
  assumes "match_number s = Some (v, r)"
  shows "\<exists>c. s = c @ r \<and> c \<noteq> [] \<and> (hd c = 45 \<or> is_digit (hd c)) \<and> is_digit (last c) \<and>
           (\<forall>t. delimited t \<longrightarrow> match_number (c @ t) = Some (v, t))"
proof -
  obtain neg s1 where sg: "scan_sign s = (neg, s1)"
    by (cases "scan_sign s")
  from assms sg obtain ip r1 where i: "scan_integer s1 = Some (ip, r1)"
    by (cases "scan_integer s1") (auto simp: match_number_def)
  obtain fp r2 where f: "scan_fraction r1 = (fp, r2)"
    by (cases "scan_fraction r1")
  obtain ep r3 where x: "scan_exponent r2 = (ep, r3)"
    by (cases "scan_exponent r2")
  from assms sg i f x have v: "v = number_value neg ip fp ep" and r: "r3 = r"
    by (simp_all add: match_number_def)
  from unsigned_reads [OF i f x] r obtain c where c: "s1 = c @ r" "c \<noteq> []" "is_digit (hd c)"
    "is_digit (last c)"
    and again: "\<And>t. delimited t \<Longrightarrow> \<exists>r1' r2'. scan_integer (c @ t) = Some (ip, r1') \<and>
                 scan_fraction r1' = (fp, r2') \<and> scan_exponent r2' = (ep, t)"
    by blast
  have val: "match_number z = Some (v, t)"
    if "scan_sign z = (neg, c @ t)" and "delimited t" for z t
    using again [OF that(2)] that(1) v by (auto simp: match_number_def)
  from c have hc: "hd c \<noteq> 45" by (auto simp: is_digit_def)
  show ?thesis
  proof (cases "\<exists>s'. s = 45 # s'")
    case True
    then obtain s' where s': "s = 45 # s'" by blast
    with sg have n: "neg" "s1 = s'" by (simp_all add: scan_sign_def)
    show ?thesis
    proof (rule exI [of _ "45 # c"], intro conjI allI impI)
      show "s = (45 # c) @ r" using s' n c by simp
      show "45 # c \<noteq> []" by simp
      show "hd (45 # c) = 45 \<or> is_digit (hd (45 # c))" by simp
      show "is_digit (last (45 # c))" using c by simp
      fix t assume "delimited t"
      moreover have "scan_sign ((45 # c) @ t) = (neg, c @ t)"
        using n by (simp add: scan_sign_def)
      ultimately show "match_number ((45 # c) @ t) = Some (v, t)" by (rule val [rotated])
    qed
  next
    case False
    with sg have n: "\<not> neg" "s1 = s"
      by (cases s; auto simp: scan_sign_def split: if_splits)+
    show ?thesis
    proof (rule exI [of _ c], intro conjI allI impI)
      show "s = c @ r" using n c by simp
      show "c \<noteq> []" using c by simp
      show "hd c = 45 \<or> is_digit (hd c)" using c by simp
      show "is_digit (last c)" using c by simp
      fix t assume "delimited t"
      moreover have "scan_sign (c @ t) = (neg, c @ t)"
        using n c hc by (cases c) (simp_all add: scan_sign_def)
      ultimately show "match_number (c @ t) = Some (v, t)" by (rule val [rotated])
    qed
  qed
qed


subsection \<open>Strings\<close>

lemma hex4_length: "hex4 xs = Some u \<Longrightarrow> length xs = 4"
  by (induction xs rule: hex4.induct) simp_all

lemma hex4_no_quote: "hex4 xs = Some u \<Longrightarrow> 34 \<notin> set xs"
  by (induction xs rule: hex4.induct)
     (auto simp: hex_digit_def split: option.splits if_splits)

lemma emit_Some: "emit x res = Some (str, r) \<Longrightarrow> \<exists>str'. res = Some (str', r) \<and> str = x # str'"
  by (auto simp: emit_def split: option.splits)

lemma scanstring_u:
  assumes "hex4 h = Some u"
  shows "scanstring (92 # 117 # h @ d) =
     (if is_high_surrogate u \<and> take 2 d = [92, 117] then
        (case hex4 (take 4 (drop 2 d)) of
           None \<Rightarrow> None
         | Some u2 \<Rightarrow>
             if is_low_surrogate u2
             then emit (join_surrogates u u2) (scanstring (drop 6 d))
             else emit u (scanstring d))
      else emit u (scanstring d))"
proof -
  have l: "length h = 4" using assms by (rule hex4_length)
  show ?thesis using assms l by (simp split: option.split)
qed

lemma quote_in_window:
  assumes "length (c::pystr) < n"
  shows "34 \<in> set (take n (c @ 34 # x))"
proof -
  have "(c @ 34 # x) ! length c = 34" by simp
  moreover have "length c < length (take n (c @ 34 # x))" using assms by simp
  ultimately show ?thesis
    by (metis nth_take assms nth_mem)
qed

lemma escape_start_stable:
  "(take 2 ((c::pystr) @ 34 # x) = [92, 117]) = (take 2 c = [92, 117])"
proof (cases c)
  case Nil
  then show ?thesis by simp
next
  case (Cons a c')
  then show ?thesis by (cases c') simp_all
qed

lemma hex_window_stable:
  assumes "2 \<le> length (c::pystr)"
  shows "hex4 (take 4 (drop 2 (c @ 34 # x))) = hex4 (take 4 (drop 2 c))"
proof (cases "6 \<le> length c")
  case True
  then show ?thesis by simp
next
  case False
  then have short: "length (drop 2 c) < 4" by simp
  have d: "drop 2 (c @ 34 # x) = drop 2 c @ 34 # x" using assms by simp
  have q: "34 \<in> set (take 4 (drop 2 (c @ 34 # x)))"
    unfolding d using short by (rule quote_in_window)
  have "hex4 (take 4 (drop 2 (c @ 34 # x))) = None"
  proof (rule ccontr)
    assume "hex4 (take 4 (drop 2 (c @ 34 # x))) \<noteq> None"
    then obtain u where "hex4 (take 4 (drop 2 (c @ 34 # x))) = Some u" by blast
    then have "34 \<notin> set (take 4 (drop 2 (c @ 34 # x)))" by (rule hex4_no_quote)
    then show False using q by (rule notE)
  qed
  moreover have "hex4 (take 4 (drop 2 c)) = None"
  proof (rule ccontr)
    assume "hex4 (take 4 (drop 2 c)) \<noteq> None"
    then obtain u where "hex4 (take 4 (drop 2 c)) = Some u" by blast
    then have "length (take 4 (drop 2 c)) = 4" by (rule hex4_length)
    then show False using short by simp
  qed
  ultimately show ?thesis by simp
qed


lemma scanstring_reads:
  "scanstring s = Some (str, r) \<Longrightarrow>
     \<exists>c. s = c @ 34 # r \<and> (\<forall>t. scanstring (c @ 34 # t) = Some (str, t))"
proof (induction s arbitrary: str r rule: scanstring.induct)
  case 1
  then show ?case by simp
next
  case (2 c0 r0)
  show ?case
  proof (cases "c0 = 34")
    case True
    with "2.prems" have "str = []" "r = r0" by simp_all
    with True show ?thesis by (intro exI [of _ "[]"]) simp
  next
    case False
    note c34 = this
    show ?thesis
    proof (cases "c0 = 92")
      case False
      note c92 = this
      from c34 c92 "2.prems" have ctl: "\<not> c0 \<le> 31"
        and em: "emit c0 (scanstring r0) = Some (str, r)"
        by (simp_all split: if_splits)
      from emit_Some [OF em] obtain str' where s': "scanstring r0 = Some (str', r)"
        and str: "str = c0 # str'" by blast
      from "2.IH"(5) [OF c34 c92 ctl s'] obtain c' where c': "r0 = c' @ 34 # r"
        and all: "\<And>t. scanstring (c' @ 34 # t) = Some (str', t)" by blast
      show ?thesis
        by (rule exI [of _ "c0 # c'"]) (simp add: c' all str c34 c92 ctl emit_def)
    next
      case True
      note c92 = this
      show ?thesis
      proof (cases r0)
        case Nil
        with c92 c34 "2.prems" show ?thesis by simp
      next
        case (Cons e r1)
        show ?thesis
        proof (cases "e = 117")
          case False
          note e = this
          from c92 c34 Cons e "2.prems" obtain ch where ch: "unescape e = Some ch"
            and em: "emit ch (scanstring r1) = Some (str, r)"
            by (auto split: option.splits)
          from emit_Some [OF em] obtain str' where s': "scanstring r1 = Some (str', r)"
            and str: "str = ch # str'" by blast
          from "2.IH"(4) [OF c34 c92 Cons e ch s'] obtain c' where c': "r1 = c' @ 34 # r"
            and all: "\<And>t. scanstring (c' @ 34 # t) = Some (str', t)" by blast
          show ?thesis
            by (rule exI [of _ "c0 # e # c'"]) (simp add: c' all str c92 Cons e ch emit_def)
        next
          case True
          note e = this
          from c92 c34 Cons e "2.prems" obtain u where u: "hex4 (take 4 r1) = Some u"
            by (auto split: option.splits)
          define h where "h = take 4 r1"
          define d where "d = drop 4 r1"
          have r1: "r1 = h @ d" by (simp add: h_def d_def)
          have hu: "hex4 h = Some u" using u by (simp add: h_def)
          have d6: "drop 2 d = drop 6 r1" and d10: "drop 6 d = drop 10 r1"
            by (simp_all add: d_def)
          have s: "c0 # r0 = 92 # 117 # h @ d" by (simp add: c92 Cons e r1)
          note unfold = scanstring_u [OF hu]
          show ?thesis
          proof (cases "is_high_surrogate u \<and> take 2 d = [92, 117]")
            case False
            note hs = this
            from "2.prems" have em: "emit u (scanstring d) = Some (str, r)"
              unfolding s unfold using hs by simp
            from emit_Some [OF em] obtain str' where s': "scanstring d = Some (str', r)"
              and str: "str = u # str'" by blast
            from hs have hs': "\<not> (is_high_surrogate u \<and> take 2 (drop 4 r1) = [92, 117])"
              by (simp add: d_def)
            from "2.IH"(3) [OF c34 c92 Cons e u hs'] s' obtain c' where c': "d = c' @ 34 # r"
              and all: "\<And>t. scanstring (c' @ 34 # t) = Some (str', t)"
              unfolding d_def by blast
            have stable: "\<not> (is_high_surrogate u \<and> take 2 (c' @ 34 # t) = [92, 117])" for t
              using hs unfolding c' escape_start_stable [of c' r] escape_start_stable [of c' t] .
            have step: "scanstring (92 # 117 # h @ (c' @ 34 # t)) = emit u (scanstring (c' @ 34 # t))"
              for t
              unfolding unfold using stable [of t] by (simp only: if_False)
            have assoc: "(92 # 117 # h @ c') @ 34 # t = 92 # 117 # h @ (c' @ 34 # t)" for t
              by simp
            have "scanstring ((92 # 117 # h @ c') @ 34 # t) = Some (str, t)" for t
              unfolding assoc step all str by (simp add: emit_def)
            moreover have "c0 # r0 = (92 # 117 # h @ c') @ 34 # r"
              unfolding s c' by simp
            ultimately show ?thesis by blast
          next
            case True
            note hs = this
            from "2.prems" obtain u2 where u2: "hex4 (take 4 (drop 2 d)) = Some u2"
              unfolding s unfold using hs by (auto split: option.splits)
            show ?thesis
            proof (cases "is_low_surrogate u2")
              case False
              note low = this
              from "2.prems" have em: "emit u (scanstring d) = Some (str, r)"
                unfolding s unfold using hs u2 low by simp
              from emit_Some [OF em] obtain str' where s': "scanstring d = Some (str', r)"
                and str: "str = u # str'" by blast
              from hs have hs': "is_high_surrogate u \<and> take 2 (drop 4 r1) = [92, 117]"
                by (simp add: d_def)
              from u2 have u2': "hex4 (take 4 (drop 6 r1)) = Some u2" by (simp add: d6)
              from "2.IH"(2) [OF c34 c92 Cons e u hs' u2' low] s'
              obtain c' where c': "d = c' @ 34 # r"
                and all: "\<And>t. scanstring (c' @ 34 # t) = Some (str', t)"
                unfolding d_def by blast
              from hs have start: "take 2 c' = [92, 117]"
                unfolding c' escape_start_stable [of c' r] by simp
              then have len: "2 \<le> length c'" by (cases c'; cases "tl c'") auto
              have st1: "take 2 (c' @ 34 # t) = [92, 117]" for t
                using start unfolding escape_start_stable [of c' t] .
              have st2: "hex4 (take 4 (drop 2 (c' @ 34 # t))) = Some u2" for t
                using u2 unfolding c' hex_window_stable [OF len, of r]
                  hex_window_stable [OF len, of t] .
              have step: "scanstring (92 # 117 # h @ (c' @ 34 # t)) = emit u (scanstring (c' @ 34 # t))"
                for t
                unfolding unfold using st1 [of t] st2 [of t] hs low
                by (simp only: simp_thms if_True if_False option.case)
              have assoc: "(92 # 117 # h @ c') @ 34 # t = 92 # 117 # h @ (c' @ 34 # t)" for t
                by simp
              have "scanstring ((92 # 117 # h @ c') @ 34 # t) = Some (str, t)" for t
                unfolding assoc step all str by (simp add: emit_def)
              moreover have "c0 # r0 = (92 # 117 # h @ c') @ 34 # r"
                unfolding s c' by simp
              ultimately show ?thesis by blast
            next
              case True
              note low = this
              from "2.prems" have em:
                "emit (join_surrogates u u2) (scanstring (drop 6 d)) = Some (str, r)"
                unfolding s unfold using hs u2 low by simp
              from emit_Some [OF em] obtain str' where s': "scanstring (drop 6 d) = Some (str', r)"
                and str: "str = join_surrogates u u2 # str'" by blast
              from hs have hs': "is_high_surrogate u \<and> take 2 (drop 4 r1) = [92, 117]"
                by (simp add: d_def)
              from u2 have u2': "hex4 (take 4 (drop 6 r1)) = Some u2" by (simp add: d6)
              from "2.IH"(1) [OF c34 c92 Cons e u hs' u2' low] s'
              obtain c' where c': "drop 6 d = c' @ 34 # r"
                and all: "\<And>t. scanstring (c' @ 34 # t) = Some (str', t)"
                unfolding d10 by blast
              define p where "p = take 6 d"
              have "length (take 4 (drop 2 d)) = 4" using u2 by (rule hex4_length)
              then have lp: "length p = 6" by (simp add: p_def)
              have dp: "d = p @ c' @ 34 # r"
                using append_take_drop_id [of 6 d] unfolding c' p_def by simp
              have w1: "take 2 (p @ x) = take 2 d" for x
                using lp by (simp add: dp)
              have w2: "take 4 (drop 2 (p @ x)) = take 4 (drop 2 d)" for x
                using lp by (simp add: dp)
              have w3: "drop 6 (p @ x) = x" for x
                using lp by simp
              have step: "scanstring (92 # 117 # h @ (p @ c' @ 34 # t)) =
                  emit (join_surrogates u u2) (scanstring (c' @ 34 # t))" for t
                unfolding unfold w1 w2 w3 using hs u2 low
                by (simp only: simp_thms if_True if_False option.case)
              have assoc: "(92 # 117 # h @ p @ c') @ 34 # t = 92 # 117 # h @ (p @ c' @ 34 # t)"
                for t
                by simp
              have "scanstring ((92 # 117 # h @ p @ c') @ 34 # t) = Some (str, t)" for t
                unfolding assoc step all str by (simp add: emit_def)
              moreover have "c0 # r0 = (92 # 117 # h @ p @ c') @ 34 # r"
                unfolding s by (simp add: dp [symmetric])
              ultimately show ?thesis by blast
            qed
          qed
        qed
      qed
    qed
  qed
qed


subsection \<open>Values\<close>

lemma scan_once_number:
  assumes "match_number s = Some x"
  shows "scan_once s = Some x"
proof (cases s)
  case Nil
  with assms show ?thesis
    by (simp add: match_number_def scan_sign_def scan_integer_def)
next
  case (Cons c0 r)
  have "(48 \<le> c0 \<and> c0 \<le> 57) \<or> (c0 = 45 \<and> (\<exists>d r'. r = d # r' \<and> 48 \<le> d \<and> d \<le> 57))"
    using assms unfolding Cons match_number_def scan_sign_def scan_integer_def
    by (auto split: if_splits list.splits option.splits)
  then have "scan_once (c0 # r) = match_number (c0 # r)"
    by (auto simp: py_def)
  with assms Cons show ?thesis by simp
qed

lemma value_text_number:
  assumes "match_number s = Some (v, r)"
  shows "\<exists>c. s = c @ r \<and> value_text c v"
proof -
  from match_number_reads [OF assms] obtain c where c: "s = c @ r" "c \<noteq> []"
    and h: "hd c = 45 \<or> is_digit (hd c)" and l: "is_digit (last c)"
    and all: "\<And>t. delimited t \<Longrightarrow> match_number (c @ t) = Some (v, t)"
    by blast
  from h have "\<not> isspace (hd c) \<and> hd c \<noteq> 96 \<and> hd c \<noteq> 65279"
    by (auto simp: isspace_def is_digit_def)
  moreover from l have "\<not> isspace (last c)"
    by (auto simp: isspace_def is_digit_def)
  moreover have "scan_once (c @ t) = Some (v, t)" if "delimited t" for t
    using all [OF that] by (rule scan_once_number)
  ultimately have "value_text c v"
    using c(2) by (simp add: value_text_def)
  with c(1) show ?thesis by blast
qed

lemma value_text_string:
  assumes "\<And>t. scanstring (c @ 34 # t) = Some (str, t)"
  shows "value_text (34 # c @ [34]) (PStr str)"
  by (simp add: value_text_def isspace_def assms)

lemma value_text_null: "value_text (110 # py ''ull'') PNone"
  by (simp add: value_text_def isspace_def py_def)

lemma value_text_true: "value_text (116 # py ''rue'') (PBool True)"
  by (simp add: value_text_def isspace_def py_def)

lemma value_text_false: "value_text (102 # py ''alse'') (PBool False)"
  by (simp add: value_text_def isspace_def py_def)

lemma value_text_nan: "value_text (78 # py ''aN'') (PFloat FNaN)"
  by (simp add: value_text_def isspace_def py_def)

lemma value_text_infinity: "value_text (73 # py ''nfinity'') (PFloat (FInf False))"
  by (simp add: value_text_def isspace_def py_def)

lemma value_text_minus_infinity: "value_text (45 # py ''Infinity'') (PFloat (FInf True))"
  by (simp add: value_text_def isspace_def py_def)

lemma value_text_literal:
  assumes "value_text (c0 # l) v" and "take n r = l"
  shows "\<exists>c. c0 # r = c @ drop n r \<and> value_text c v"
proof -
  have "c0 # r = (c0 # l) @ drop n r"
    using append_take_drop_id [of n r] assms(2) by simp
  with assms(1) show ?thesis by blast
qed

lemma not_ws_simps:
  "\<not> is_json_ws 125" "\<not> is_json_ws 93" "\<not> is_json_ws 44" "\<not> is_json_ws 58" "\<not> is_json_ws 34"
  by (simp_all add: is_json_ws_def)

lemma skip_ws_to:
  assumes "\<forall>x \<in> set w. is_json_ws x" and "\<not> is_json_ws d"
  shows "skip_ws (w @ d # x) = d # x"
  using assms by (simp add: skip_ws_past skip_ws_stop)

lemma skip_ws_to_text:
  assumes "\<forall>x \<in> set w. is_json_ws x" and "c \<noteq> []" and "\<not> is_json_ws (hd c)"
  shows "skip_ws (w @ c @ x) = c @ x"
proof -
  from assms(2) obtain d c' where c: "c = d # c'" by (cases c) auto
  with assms show ?thesis using skip_ws_to [of w d "c' @ x"] by simp
qed

lemma delimited_ws_then:
  assumes "\<forall>x \<in> set w. is_json_ws x" and "\<not> is_digit d" "d \<noteq> 46" "d \<noteq> 101" "d \<noteq> 69"
  shows "delimited (w @ d # x)"
proof (cases w)
  case Nil
  with assms show ?thesis by (simp add: delimited_Cons)
next
  case (Cons a w')
  with assms(1) show ?thesis by (simp add: json_ws_delimits)
qed

lemma delimited_ws:
  assumes "\<forall>x \<in> set w. is_json_ws x"
  shows "delimited w"
proof (cases w)
  case Nil
  then show ?thesis by (simp add: delimited_Nil)
next
  case (Cons a w')
  with assms show ?thesis by (simp add: json_ws_delimits)
qed

lemma value_text_empty_object:
  assumes "\<forall>x \<in> set w. is_json_ws x"
  shows "value_text (123 # w @ [125]) (PDict [])"
  using skip_ws_to [OF assms not_ws_simps(1)]
  by (simp add: value_text_def isspace_def)

lemma value_text_empty_array:
  assumes "\<forall>x \<in> set w. is_json_ws x"
  shows "value_text (91 # w @ [93]) (PList [])"
  using skip_ws_to [OF assms not_ws_simps(2)]
  by (simp add: value_text_def isspace_def)

lemma value_text_object:
  assumes w: "\<forall>x \<in> set w. is_json_ws x" and o: "object_text c [] v"
    and h: "\<not> is_json_ws (hd c)" "hd c \<noteq> 125"
  shows "value_text (123 # w @ c) v"
proof -
  from o have ne: "c \<noteq> []" and l: "last c = 125"
    and all: "\<And>t. parse_object (c @ t) [] = Some (v, t)"
    by (simp_all add: object_text_def)
  from ne obtain d c' where c: "c = d # c'" by (cases c) auto
  have "scan_once ((123 # w @ c) @ t) = Some (v, t)" for t
  proof -
    have "skip_ws (w @ c @ t) = d # c' @ t"
      using skip_ws_to_text [OF w ne h(1), of t] c by simp
    then have "scan_once (123 # w @ c @ t) = parse_object (d # c' @ t) []"
      using h(2) c by simp
    then show ?thesis using all [of t] c by simp
  qed
  then show ?thesis
    using ne l by (simp add: value_text_def isspace_def)
qed

lemma value_text_array:
  assumes w: "\<forall>x \<in> set w. is_json_ws x" and o: "array_text c [] v"
    and h: "\<not> is_json_ws (hd c)" "hd c \<noteq> 93"
  shows "value_text (91 # w @ c) v"
proof -
  from o have ne: "c \<noteq> []" and l: "last c = 93"
    and all: "\<And>t. parse_array (c @ t) [] = Some (v, t)"
    by (simp_all add: array_text_def)
  from ne obtain d c' where c: "c = d # c'" by (cases c) auto
  have "scan_once ((91 # w @ c) @ t) = Some (v, t)" for t
  proof -
    have "skip_ws (w @ c @ t) = d # c' @ t"
      using skip_ws_to_text [OF w ne h(1), of t] c by simp
    then have "scan_once (91 # w @ c @ t) = parse_array (d # c' @ t) []"
      using h(2) c by simp
    then show ?thesis using all [of t] c by simp
  qed
  then show ?thesis
    using ne l by (simp add: value_text_def isspace_def)
qed


subsection \<open>Arrays and objects\<close>

lemma value_text_not_ws: "value_text c v \<Longrightarrow> c \<noteq> [] \<and> \<not> is_json_ws (hd c)"
  using json_ws_isspace [of "hd c"] by (auto simp: value_text_def)

lemma parse_array_step:
  assumes vt: "value_text c v" and w: "\<forall>x \<in> set w. is_json_ws x" and d: "d = 93 \<or> d = 44"
  shows "parse_array (c @ w @ d # x) acc =
     (if d = 93 then Some (PList (acc @ [v]), x) else parse_array (skip_ws x) (acc @ [v]))"
proof -
  from d have nd: "\<not> is_digit d" "d \<noteq> 46" "d \<noteq> 101" "d \<noteq> 69" and nws: "\<not> is_json_ws d"
    by (auto simp: is_digit_def is_json_ws_def)
  have "delimited (w @ d # x)" using w nd by (rule delimited_ws_then)
  with vt have so: "scan_once (c @ w @ d # x) = Some (v, w @ d # x)"
    by (simp add: value_text_def)
  from vt have "c \<noteq> []" by (simp add: value_text_def)
  then have len: "length (w @ d # x) < length (c @ w @ d # x)" by simp
  have sk: "skip_ws (w @ d # x) = d # x" using w nws by (rule skip_ws_to)
  have "parse_array (c @ w @ d # x) acc =
     (if d = 93 then Some (PList (acc @ [v]), x)
      else if d = 44 then parse_array (skip_ws x) (acc @ [v])
      else None)"
    by (subst parse_array.simps)
       (simp only: so len sk option.case prod.case list.case if_True)
  with d show ?thesis by (auto simp del: parse_array.simps)
qed

lemma parse_object_step:
  assumes key: "\<And>t. scanstring (ck @ 34 # t) = Some (key, t)"
    and w1: "\<forall>x \<in> set w1. is_json_ws x" and w2: "\<forall>x \<in> set w2. is_json_ws x"
    and vt: "value_text c v" and w3: "\<forall>x \<in> set w3. is_json_ws x"
    and d: "d = 125 \<or> d = 44"
  shows "parse_object (34 # ck @ 34 # w1 @ 58 # w2 @ c @ w3 @ d # x) acc =
     (if d = 125 then Some (PDict (dict_set acc key v), x)
      else parse_object (skip_ws x) (dict_set acc key v))"
proof -
  from d have nd: "\<not> is_digit d" "d \<noteq> 46" "d \<noteq> 101" "d \<noteq> 69" and nws: "\<not> is_json_ws d"
    by (auto simp: is_digit_def is_json_ws_def)
  let ?r3 = "w3 @ d # x"
  let ?r2 = "w2 @ c @ ?r3"
  let ?r1 = "w1 @ 58 # ?r2"
  let ?s = "34 # ck @ 34 # ?r1"
  have k: "scanstring (ck @ 34 # ?r1) = Some (key, ?r1)" by (rule key)
  have sk1: "skip_ws ?r1 = 58 # ?r2" using w1 not_ws_simps(4) by (rule skip_ws_to)
  from vt have ne: "c \<noteq> []" and nw: "\<not> is_json_ws (hd c)"
    using value_text_not_ws by blast+
  have sk2: "skip_ws ?r2 = c @ ?r3" using w2 ne nw by (rule skip_ws_to_text)
  have "delimited ?r3" using w3 nd by (rule delimited_ws_then)
  with vt have so: "scan_once (c @ ?r3) = Some (v, ?r3)"
    by (simp add: value_text_def)
  have len: "length ?r3 < length ?s" by simp
  have sk3: "skip_ws ?r3 = d # x" using w3 nws by (rule skip_ws_to)
  have "parse_object ?s acc =
     (if d = 125 then Some (PDict (dict_set acc key v), x)
      else if d = 44 then parse_object (skip_ws x) (dict_set acc key v)
      else None)"
    by (subst parse_object.simps)
       (simp only: k sk1 sk2 so len sk3 option.case prod.case list.case if_True
          if_False simp_thms)
  with d show ?thesis by (auto simp del: parse_object.simps)
qed

lemma skip_ws_text_head:
  assumes "skip_ws r = c @ x" and "c \<noteq> []"
  shows "\<not> is_json_ws (hd c)"
proof -
  from assms(2) obtain d c' where "c = d # c'" by (cases c) auto
  with assms(1) show ?thesis using skip_ws_head [of r d "c' @ x"] by simp
qed

lemma array_reads:
  assumes IHv: "\<And>v r. scan_once s = Some (v, r) \<Longrightarrow> \<exists>c. s = c @ r \<and> value_text c v"
    and IHa: "\<And>s' acc v r. length s' < length s \<Longrightarrow> parse_array s' acc = Some (v, r) \<Longrightarrow>
                \<exists>c. s' = c @ r \<and> array_text c acc v"
    and p: "parse_array s acc = Some (res, r)"
  shows "\<exists>c. s = c @ r \<and> array_text c acc res"
proof -
  have eq: "parse_array s acc =
     (case scan_once s of
        None \<Rightarrow> None
      | Some (v, r) \<Rightarrow>
          if length r < length s then
            (case skip_ws r of
               [] \<Rightarrow> None
             | d # r' \<Rightarrow>
                 if d = 93 then Some (PList (acc @ [v]), r')
                 else if d = 44 then parse_array (skip_ws r') (acc @ [v])
                 else None)
          else None)"
    by (rule parse_array.simps)
  from p obtain v r1 where so: "scan_once s = Some (v, r1)"
    unfolding eq by (auto split: option.splits)
  from p so obtain d r2 where len: "length r1 < length s" and sk: "skip_ws r1 = d # r2"
    unfolding eq by (auto split: if_splits list.splits)
  from p so len sk have d: "d = 93 \<or> d = 44"
    unfolding eq by (auto split: if_splits)
  from p so len sk have out:
    "(if d = 93 then Some (PList (acc @ [v]), r2) else parse_array (skip_ws r2) (acc @ [v])) =
       Some (res, r)"
    unfolding eq by (auto split: if_splits)
  from IHv [OF so] obtain c1 where c1: "s = c1 @ r1" and vt: "value_text c1 v" by blast
  from skip_ws_found [OF sk] obtain w where w: "r1 = w @ d # r2" "\<forall>x \<in> set w. is_json_ws x"
    by blast
  note step = parse_array_step [OF vt w(2) d]
  show ?thesis
  proof (cases "d = 93")
    case True
    with out have res: "res = PList (acc @ [v])" "r = r2" by simp_all
    have "parse_array ((c1 @ w @ [93]) @ t) acc = Some (res, t)" for t
      using step [of t acc] True res by simp
    then have "array_text (c1 @ w @ [93]) acc res"
      by (simp add: array_text_def)
    moreover have "s = (c1 @ w @ [93]) @ r" using c1 w(1) True res by simp
    ultimately show ?thesis by blast
  next
    case False
    with out have rec: "parse_array (skip_ws r2) (acc @ [v]) = Some (res, r)" by simp
    have "length (skip_ws r2) < length s"
      using length_skip_ws [of r2] c1 w(1) by simp
    from IHa [OF this rec] obtain c2 where c2: "skip_ws r2 = c2 @ r"
      and at: "array_text c2 (acc @ [v]) res" by blast
    from at have ne: "c2 \<noteq> []" and l: "last c2 = 93"
      and all: "\<And>t. parse_array (c2 @ t) (acc @ [v]) = Some (res, t)"
      by (simp_all add: array_text_def)
    from skip_ws_split [of r2] obtain w2 where w2: "r2 = w2 @ skip_ws r2"
      "\<forall>x \<in> set w2. is_json_ws x" by blast
    have nw: "\<not> is_json_ws (hd c2)" using c2 ne by (rule skip_ws_text_head)
    have "parse_array ((c1 @ w @ d # w2 @ c2) @ t) acc = Some (res, t)" for t
    proof -
      have "parse_array (c1 @ w @ d # (w2 @ c2 @ t)) acc =
          parse_array (skip_ws (w2 @ c2 @ t)) (acc @ [v])"
        using step [of "w2 @ c2 @ t" acc] False by simp
      also have "skip_ws (w2 @ c2 @ t) = c2 @ t" using w2(2) ne nw by (rule skip_ws_to_text)
      finally show ?thesis using all [of t] by simp
    qed
    then have "array_text (c1 @ w @ d # w2 @ c2) acc res"
      using ne l by (simp add: array_text_def)
    moreover have "s = (c1 @ w @ d # w2 @ c2) @ r"
      using c1 w(1) w2(1) c2 by simp
    ultimately show ?thesis by blast
  qed
qed


lemma object_reads:
  assumes IHv: "\<And>s' v r. length s' < length s \<Longrightarrow> scan_once s' = Some (v, r) \<Longrightarrow>
                \<exists>c. s' = c @ r \<and> value_text c v"
    and IHo: "\<And>s' acc v r. length s' < length s \<Longrightarrow> parse_object s' acc = Some (v, r) \<Longrightarrow>
                \<exists>c. s' = c @ r \<and> object_text c acc v"
    and p: "parse_object s acc = Some (res, r)"
  shows "\<exists>c. s = c @ r \<and> object_text c acc res"
proof -
  have eq: "parse_object s acc =
     (case s of
        [] \<Rightarrow> None
      | q # r0 \<Rightarrow>
          if q \<noteq> 34 then None
          else
            (case scanstring r0 of
               None \<Rightarrow> None
             | Some (key, r1) \<Rightarrow>
                 (case skip_ws r1 of
                    [] \<Rightarrow> None
                  | col # r2 \<Rightarrow>
                      if col \<noteq> 58 then None
                      else
                        (case scan_once (skip_ws r2) of
                           None \<Rightarrow> None
                         | Some (v, r3) \<Rightarrow>
                             if length r3 < length s then
                               (case skip_ws r3 of
                                  [] \<Rightarrow> None
                                | d # r4 \<Rightarrow>
                                    if d = 125 then Some (PDict (dict_set acc key v), r4)
                                    else if d = 44
                                    then parse_object (skip_ws r4) (dict_set acc key v)
                                    else None)
                             else None))))"
    by (rule parse_object.simps)
  from p obtain r0 where s: "s = 34 # r0"
    unfolding eq by (auto split: list.splits if_splits)
  from p obtain key r1 where k: "scanstring r0 = Some (key, r1)"
    unfolding eq s by (auto split: option.splits)
  from p k obtain r2 where sk1: "skip_ws r1 = 58 # r2"
    unfolding eq s by (auto split: list.splits if_splits)
  from p k sk1 obtain v r3 where so: "scan_once (skip_ws r2) = Some (v, r3)"
    unfolding eq s by (auto split: option.splits)
  from p k sk1 so obtain d r4 where sk3: "skip_ws r3 = d # r4"
    unfolding eq s by (auto split: list.splits if_splits)
  from p k sk1 so sk3 have d: "d = 125 \<or> d = 44"
    unfolding eq s by (auto split: if_splits)
  from p k sk1 so sk3 have out:
    "(if d = 125 then Some (PDict (dict_set acc key v), r4)
      else parse_object (skip_ws r4) (dict_set acc key v)) = Some (res, r)"
    unfolding eq s by (auto split: if_splits)
  from scanstring_reads [OF k] obtain ck where ck: "r0 = ck @ 34 # r1"
    and key: "\<And>t. scanstring (ck @ 34 # t) = Some (key, t)" by blast
  from skip_ws_found [OF sk1] obtain w1 where w1: "r1 = w1 @ 58 # r2"
    "\<forall>x \<in> set w1. is_json_ws x" by blast
  from skip_ws_split [of r2] obtain w2 where w2: "r2 = w2 @ skip_ws r2"
    "\<forall>x \<in> set w2. is_json_ws x" by blast
  have "length (skip_ws r2) < length s"
    using length_skip_ws [of r2] s ck w1(1) by simp
  from IHv [OF this so] obtain c1 where c1: "skip_ws r2 = c1 @ r3" and vt: "value_text c1 v"
    by blast
  from skip_ws_found [OF sk3] obtain w3 where w3: "r3 = w3 @ d # r4"
    "\<forall>x \<in> set w3. is_json_ws x" by blast
  note step = parse_object_step [OF key w1(2) w2(2) vt w3(2) d]
  have whole: "s = 34 # ck @ 34 # w1 @ 58 # w2 @ c1 @ w3 @ d # r4"
    unfolding s ck w1(1) using w2(1) c1 w3(1) by simp
  show ?thesis
  proof (cases "d = 125")
    case True
    with out have res: "res = PDict (dict_set acc key v)" "r = r4" by simp_all
    let ?c = "34 # ck @ 34 # w1 @ 58 # w2 @ c1 @ w3 @ [125]"
    have "parse_object (?c @ t) acc = Some (res, t)" for t
      using step [of t acc] True res by simp
    then have "object_text ?c acc res"
      by (simp add: object_text_def)
    moreover have "s = ?c @ r" using whole True res by simp
    ultimately show ?thesis by blast
  next
    case False
    with out have rec: "parse_object (skip_ws r4) (dict_set acc key v) = Some (res, r)"
      by simp
    have "length (skip_ws r4) < length s"
      using length_skip_ws [of r4] whole by simp
    from IHo [OF this rec] obtain c2 where c2: "skip_ws r4 = c2 @ r"
      and ot: "object_text c2 (dict_set acc key v) res" by blast
    from ot have ne: "c2 \<noteq> []" and l: "last c2 = 125"
      and all: "\<And>t. parse_object (c2 @ t) (dict_set acc key v) = Some (res, t)"
      by (simp_all add: object_text_def)
    from skip_ws_split [of r4] obtain w4 where w4: "r4 = w4 @ skip_ws r4"
      "\<forall>x \<in> set w4. is_json_ws x" by blast
    have nw: "\<not> is_json_ws (hd c2)" using c2 ne by (rule skip_ws_text_head)
    let ?c = "34 # ck @ 34 # w1 @ 58 # w2 @ c1 @ w3 @ d # w4 @ c2"
    have "parse_object (?c @ t) acc = Some (res, t)" for t
    proof -
      have "parse_object (34 # ck @ 34 # w1 @ 58 # w2 @ c1 @ w3 @ d # (w4 @ c2 @ t)) acc =
          parse_object (skip_ws (w4 @ c2 @ t)) (dict_set acc key v)"
        using step [of "w4 @ c2 @ t" acc] False by simp
      also have "skip_ws (w4 @ c2 @ t) = c2 @ t" using w4(2) ne nw by (rule skip_ws_to_text)
      finally show ?thesis using all [of t] by simp
    qed
    then have "object_text ?c acc res"
      using ne l by (simp add: object_text_def)
    moreover have "s = ?c @ r"
      using whole w4(1) c2 by simp
    ultimately show ?thesis by blast
  qed
qed

lemma value_reads:
  assumes IHa: "\<And>s' acc v r. length s' < length s \<Longrightarrow> parse_array s' acc = Some (v, r) \<Longrightarrow>
                \<exists>c. s' = c @ r \<and> array_text c acc v"
    and IHo: "\<And>s' acc v r. length s' < length s \<Longrightarrow> parse_object s' acc = Some (v, r) \<Longrightarrow>
                \<exists>c. s' = c @ r \<and> object_text c acc v"
    and p: "scan_once s = Some (v, r)"
  shows "\<exists>c. s = c @ r \<and> value_text c v"
proof (cases s)
  case Nil
  with p show ?thesis by simp
next
  case (Cons c0 r0)
  note s = this
  consider (str) "c0 = 34" | (obj) "c0 = 123" | (arr) "c0 = 91"
    | (null) "c0 = 110 \<and> take 3 r0 = py ''ull''"
    | (true) "c0 = 116 \<and> take 3 r0 = py ''rue''"
    | (false) "c0 = 102 \<and> take 4 r0 = py ''alse''"
    | (nan) "c0 = 78 \<and> take 2 r0 = py ''aN''"
    | (inf) "c0 = 73 \<and> take 7 r0 = py ''nfinity''"
    | (minf) "c0 = 45 \<and> take 8 r0 = py ''Infinity''"
    | (num) "c0 \<noteq> 34" "c0 \<noteq> 123" "c0 \<noteq> 91"
        "\<not> (c0 = 110 \<and> take 3 r0 = py ''ull'')"
        "\<not> (c0 = 116 \<and> take 3 r0 = py ''rue'')"
        "\<not> (c0 = 102 \<and> take 4 r0 = py ''alse'')"
        "\<not> (c0 = 78 \<and> take 2 r0 = py ''aN'')"
        "\<not> (c0 = 73 \<and> take 7 r0 = py ''nfinity'')"
        "\<not> (c0 = 45 \<and> take 8 r0 = py ''Infinity'')"
    by blast
  then show ?thesis
  proof cases
    case str
    from p obtain x where k: "scanstring r0 = Some (x, r)" and v: "v = PStr x"
      unfolding s using str by (auto split: option.splits)
    from scanstring_reads [OF k] obtain ck where ck: "r0 = ck @ 34 # r"
      and key: "\<And>t. scanstring (ck @ 34 # t) = Some (x, t)" by blast
    have "value_text (34 # ck @ [34]) v" unfolding v using key by (rule value_text_string)
    moreover have "s = (34 # ck @ [34]) @ r" using s str ck by simp
    ultimately show ?thesis by blast
  next
    case obj
    from p obtain d r1 where sk: "skip_ws r0 = d # r1"
      unfolding s using obj by (auto split: list.splits)
    from skip_ws_found [OF sk] obtain w where w: "r0 = w @ d # r1"
      "\<forall>x \<in> set w. is_json_ws x" "\<not> is_json_ws d" by blast
    show ?thesis
    proof (cases "d = 125")
      case True
      with p sk have v: "v = PDict []" "r = r1" unfolding s using obj by simp_all
      have "value_text (123 # w @ [125]) v"
        unfolding v using w(2) by (rule value_text_empty_object)
      moreover have "s = (123 # w @ [125]) @ r" using s obj w(1) True v by simp
      ultimately show ?thesis by blast
    next
      case False
      with p sk have rec: "parse_object (d # r1) [] = Some (v, r)"
        unfolding s using obj by simp
      have "length (d # r1) < length s" using s w(1) by simp
      from IHo [OF this rec] obtain c where c: "d # r1 = c @ r" and ot: "object_text c [] v"
        by blast
      from ot have "c \<noteq> []" by (simp add: object_text_def)
      with c have hd: "hd c = d" by (cases c) auto
      have "value_text (123 # w @ c) v"
        using w(2) ot w(3) False unfolding hd [symmetric] by (rule value_text_object)
      moreover have "s = (123 # w @ c) @ r" using s obj w(1) c by simp
      ultimately show ?thesis by blast
    qed
  next
    case arr
    from p obtain d r1 where sk: "skip_ws r0 = d # r1"
      unfolding s using arr by (auto split: list.splits)
    from skip_ws_found [OF sk] obtain w where w: "r0 = w @ d # r1"
      "\<forall>x \<in> set w. is_json_ws x" "\<not> is_json_ws d" by blast
    show ?thesis
    proof (cases "d = 93")
      case True
      with p sk have v: "v = PList []" "r = r1" unfolding s using arr by simp_all
      have "value_text (91 # w @ [93]) v"
        unfolding v using w(2) by (rule value_text_empty_array)
      moreover have "s = (91 # w @ [93]) @ r" using s arr w(1) True v by simp
      ultimately show ?thesis by blast
    next
      case False
      with p sk have rec: "parse_array (d # r1) [] = Some (v, r)"
        unfolding s using arr by simp
      have "length (d # r1) < length s" using s w(1) by simp
      from IHa [OF this rec] obtain c where c: "d # r1 = c @ r" and ot: "array_text c [] v"
        by blast
      from ot have "c \<noteq> []" by (simp add: array_text_def)
      with c have hd: "hd c = d" by (cases c) auto
      have "value_text (91 # w @ c) v"
        using w(2) ot w(3) False unfolding hd [symmetric] by (rule value_text_array)
      moreover have "s = (91 # w @ c) @ r" using s arr w(1) c by simp
      ultimately show ?thesis by blast
    qed
  next
    case null
    with p have v: "v = PNone" "r = drop 3 r0" unfolding s by simp_all
    show ?thesis
      unfolding s v conjunct1 [OF null]
      by (rule value_text_literal [OF value_text_null conjunct2 [OF null]])
  next
    case true
    with p have v: "v = PBool True" "r = drop 3 r0" unfolding s by (simp_all add: py_def)
    show ?thesis
      unfolding s v conjunct1 [OF true]
      by (rule value_text_literal [OF value_text_true conjunct2 [OF true]])
  next
    case false
    with p have v: "v = PBool False" "r = drop 4 r0" unfolding s by (simp_all add: py_def)
    show ?thesis
      unfolding s v conjunct1 [OF false]
      by (rule value_text_literal [OF value_text_false conjunct2 [OF false]])
  next
    case nan
    with p have v: "v = PFloat FNaN" "r = drop 2 r0" unfolding s by (simp_all add: py_def)
    show ?thesis
      unfolding s v conjunct1 [OF nan]
      by (rule value_text_literal [OF value_text_nan conjunct2 [OF nan]])
  next
    case inf
    with p have v: "v = PFloat (FInf False)" "r = drop 7 r0" unfolding s by (simp_all add: py_def)
    show ?thesis
      unfolding s v conjunct1 [OF inf]
      by (rule value_text_literal [OF value_text_infinity conjunct2 [OF inf]])
  next
    case minf
    with p have v: "v = PFloat (FInf True)" "r = drop 8 r0" unfolding s by (simp_all add: py_def)
    show ?thesis
      unfolding s v conjunct1 [OF minf]
      by (rule value_text_literal [OF value_text_minus_infinity conjunct2 [OF minf]])
  next
    case num
    with p have "match_number s = Some (v, r)" unfolding s by simp
    then show ?thesis by (rule value_text_number)
  qed
qed

lemma decoder_reads:
  "(\<forall>v r. scan_once s = Some (v, r) \<longrightarrow> (\<exists>c. s = c @ r \<and> value_text c v)) \<and>
   (\<forall>acc v r. parse_array s acc = Some (v, r) \<longrightarrow> (\<exists>c. s = c @ r \<and> array_text c acc v)) \<and>
   (\<forall>acc v r. parse_object s acc = Some (v, r) \<longrightarrow> (\<exists>c. s = c @ r \<and> object_text c acc v))"
proof (induction "length s" arbitrary: s rule: less_induct)
  case less
  have v: "\<exists>c. s = c @ r \<and> value_text c v" if "scan_once s = Some (v, r)" for v r
    using less that by (intro value_reads [of s]) blast+
  have a: "\<exists>c. s = c @ r \<and> array_text c acc v" if "parse_array s acc = Some (v, r)" for acc v r
    using less v that by (intro array_reads [of s]) blast+
  have o: "\<exists>c. s = c @ r \<and> object_text c acc v" if "parse_object s acc = Some (v, r)" for acc v r
    using less that by (intro object_reads [of s]) blast+
  from v a o show ?case by blast
qed

lemma scan_once_reads:
  assumes "scan_once s = Some (v, r)"
  shows "\<exists>c. s = c @ r \<and> value_text c v"
  using decoder_reads [of s] assms by blast

lemma scan_once_shorter:
  assumes "scan_once s = Some (v, r)"
  shows "length r < length s"
proof -
  from scan_once_reads [OF assms] obtain c where "s = c @ r" "c \<noteq> []"
    by (auto simp: value_text_def)
  then show ?thesis by simp
qed

subsection \<open>Whole texts\<close>

lemma json_loads_reads:
  assumes "json_loads J = Inr v"
  shows "\<exists>w1 c w2. J = w1 @ c @ w2 \<and> (\<forall>x \<in> set w1. is_json_ws x) \<and>
           (\<forall>x \<in> set w2. is_json_ws x) \<and> value_text c v"
proof -
  from assms obtain r where so: "scan_once (skip_ws J) = Some (v, r)" and sk: "skip_ws r = []"
    unfolding json_loads_def by (auto split: if_splits option.splits)
  from skip_ws_split [of J] obtain w1 where w1: "J = w1 @ skip_ws J"
    "\<forall>x \<in> set w1. is_json_ws x" by blast
  from scan_once_reads [OF so] obtain c where c: "skip_ws J = c @ r" "value_text c v" by blast
  from skip_ws_all [OF sk] have "\<forall>x \<in> set r. is_json_ws x" .
  moreover have "J = w1 @ c @ r" using w1(1) c(1) by simp
  ultimately show ?thesis using w1(2) c(2) by blast
qed

lemma skip_ws_only:
  assumes "\<forall>x \<in> set w. is_json_ws x"
  shows "skip_ws w = []"
  using assms by (simp add: skip_ws_def)

lemma json_loads_text:
  assumes vt: "value_text c v" and w1: "\<forall>x \<in> set w1. is_json_ws x"
    and w2: "\<forall>x \<in> set w2. is_json_ws x"
  shows "json_loads (w1 @ c @ w2) = Inr v"
proof -
  from vt have ne: "c \<noteq> []" and bom: "hd c \<noteq> 65279" and nw: "\<not> is_json_ws (hd c)"
    and all: "\<And>t. delimited t \<Longrightarrow> scan_once (c @ t) = Some (v, t)"
    using value_text_not_ws [OF vt] by (simp_all add: value_text_def)
  have "hd (w1 @ c @ w2) \<noteq> 65279"
  proof (cases w1)
    case Nil
    with ne bom show ?thesis by simp
  next
    case (Cons a w')
    with w1 have "is_json_ws a" by simp
    then have "a \<noteq> 65279" by (auto simp: is_json_ws_def)
    with Cons show ?thesis by simp
  qed
  moreover have "w1 @ c @ w2 \<noteq> []" using ne by simp
  ultimately have nb: "\<not> startswith (w1 @ c @ w2) [65279]"
    by (cases "w1 @ c @ w2") (auto simp: startswith_def)
  have sk: "skip_ws (w1 @ c @ w2) = c @ w2" using w1 ne nw by (rule skip_ws_to_text)
  have so: "scan_once (c @ w2) = Some (v, w2)" using delimited_ws [OF w2] by (rule all)
  show ?thesis
    unfolding json_loads_def using nb by (simp add: sk so skip_ws_only [OF w2])
qed

subsection \<open>Stripping\<close>

lemma strip_keeps:
  assumes "s \<noteq> []" and "\<not> isspace (hd s)" and "\<not> isspace (last s)"
  shows "strip s = s"
proof -
  from assms(1,2) have "dropWhile isspace s = s" by (cases s) auto
  moreover from assms(1,3) have "dropWhile isspace (rev s) = rev s"
    by (cases "rev s") (auto simp: last_rev [symmetric] hd_rev)
  ultimately show ?thesis by (simp add: strip_def)
qed

lemma strip_text:
  assumes vt: "value_text c v" and w1: "\<forall>x \<in> set w1. is_json_ws x"
    and w2: "\<forall>x \<in> set w2. is_json_ws x"
  shows "strip (w1 @ c @ w2) = c"
proof -
  from vt have ne: "c \<noteq> []" and h: "\<not> isspace (hd c)" and l: "\<not> isspace (last c)"
    by (simp_all add: value_text_def)
  from w1 have s1: "\<forall>x \<in> set w1. isspace x" using json_ws_isspace by blast
  from w2 have s2: "\<forall>x \<in> set (rev w2). isspace x" using json_ws_isspace by auto
  from ne h have d1: "dropWhile isspace (c @ w2) = c @ w2" by (cases c) auto
  from ne l have d2: "dropWhile isspace (rev c) = rev c"
    by (cases "rev c") (auto simp: hd_rev)
  have "dropWhile isspace (w1 @ c @ w2) = c @ w2"
    using s1 d1 by (simp add: dropWhile_append2)
  moreover have "dropWhile isspace (rev w2 @ rev c) = dropWhile isspace (rev c)"
    by (rule dropWhile_append2) (use s2 in auto)
  ultimately show ?thesis using d2 by (simp add: strip_def)
qed


subsection \<open>Fenced and plain bodies\<close>

lemma value_text_no_fence:
  assumes "value_text c v"
  shows "strip_fence c = c"
proof -
  from assms obtain d c' where c: "c = d # c'" and d: "d \<noteq> 96"
    by (cases c) (auto simp: value_text_def)
  then have "\<not> startswith c (py ''```json'')" "\<not> startswith c (py ''```'')"
    by (simp_all add: startswith_def py_def)
  then show ?thesis by (simp add: strip_fence_def)
qed

lemma fence_json_cut:
  "strip_fence (strip (py ''```json'' @ [10] @ J @ [10] @ py ''```'')) = [10] @ J @ [10]"
proof -
  let ?b = "py ''```json'' @ [10] @ J @ [10] @ py ''```''"
  have "strip ?b = ?b"
    by (rule strip_keeps) (simp_all add: py_def isspace_def)
  moreover have "startswith ?b (py ''```json'')"
    by (simp add: startswith_def py_def)
  moreover have "py_slice ?b 7 (- 3) = drop 7 (take (length ?b - 3) ?b)"
    using py_slice_from_to_end [where s = ?b and k = 7 and m = 3] by simp
  moreover have "drop 7 (take (length ?b - 3) ?b) = [10] @ J @ [10]"
    by (simp add: py_def)
  ultimately show ?thesis by (simp add: strip_fence_def)
qed

lemma fence_plain_cut:
  "strip_fence (strip (py ''```'' @ [10] @ J @ [10] @ py ''```'')) = [10] @ J @ [10]"
proof -
  let ?b = "py ''```'' @ [10] @ J @ [10] @ py ''```''"
  have "strip ?b = ?b"
    by (rule strip_keeps) (simp_all add: py_def isspace_def)
  moreover have "\<not> startswith ?b (py ''```json'')" "startswith ?b (py ''```'')"
    by (simp_all add: startswith_def py_def)
  moreover have "py_slice ?b 3 (- 3) = drop 3 (take (length ?b - 3) ?b)"
    using py_slice_from_to_end [where s = ?b and k = 3 and m = 3] by simp
  moreover have "drop 3 (take (length ?b - 3) ?b) = [10] @ J @ [10]"
    by (simp add: py_def)
  ultimately show ?thesis by (simp add: strip_fence_def)
qed

text \<open>
  C1. For every text \<open>J\<close> that \<open>json.loads\<close> reads as a value (an object text among
  them), the three bodies, \<open>J\<close> between a \<open>```json\<close> line and a \<open>```\<close> line, \<open>J\<close> between
  two \<open>```\<close> lines, and \<open>J\<close> alone, go through stripping, fence cutting and
  \<open>json.loads\<close> to that same value.
\<close>

theorem fenced_and_plain_agree:
  assumes "json_loads J = Inr v"
  shows "parse_content (py ''```json'' @ [10] @ J @ [10] @ py ''```'') = Inr v \<and>
         parse_content (py ''```'' @ [10] @ J @ [10] @ py ''```'') = Inr v \<and>
         parse_content J = Inr v"
proof -
  from json_loads_reads [OF assms] obtain w1 c w2 where J: "J = w1 @ c @ w2"
    and w1: "\<forall>x \<in> set w1. is_json_ws x" and w2: "\<forall>x \<in> set w2. is_json_ws x"
    and vt: "value_text c v" by blast
  have w1': "\<forall>x \<in> set (10 # w1). is_json_ws x"
    using w1 by (simp add: is_json_ws_def)
  have w2': "\<forall>x \<in> set (w2 @ [10]). is_json_ws x"
    using w2 by (simp add: is_json_ws_def)
  have inner: "json_loads ([10] @ J @ [10]) = Inr v"
    using json_loads_text [OF vt w1' w2'] by (simp add: J)
  have "json_loads ([] @ c @ []) = Inr v"
    by (rule json_loads_text [OF vt]) simp_all
  then have plain: "parse_content J = Inr v"
    by (simp add: parse_content_def J strip_text [OF vt w1 w2] value_text_no_fence [OF vt])
  show ?thesis
    by (simp only: parse_content_def fence_json_cut fence_plain_cut inner plain [unfolded parse_content_def] simp_thms)
qed

lemma example_object_loads:
  \<open>json_loads (py ''{"total": "12.50"}'') = Inr (PDict [(py ''total'', PStr (py ''12.50''))])\<close>
  by (simp add: json_loads_def startswith_def py_def skip_ws_def is_json_ws_def emit_def)

theorem fenced_and_plain_agree_witness:
  \<open>parse_content (py ''```json'' @ [10] @ py ''{"total": "12.50"}'' @ [10] @ py ''```'') =
     Inr (PDict [(py ''total'', PStr (py ''12.50''))]) \<and>
   parse_content (py ''```'' @ [10] @ py ''{"total": "12.50"}'' @ [10] @ py ''```'') =
     Inr (PDict [(py ''total'', PStr (py ''12.50''))]) \<and>
   parse_content (py ''{"total": "12.50"}'') = Inr (PDict [(py ''total'', PStr (py ''12.50''))])\<close>
  by (rule fenced_and_plain_agree [OF example_object_loads])

end
